theory Spec2Isabelle
  imports Complex_Main "HOL-Library.Word" "HOL-Library.Log_Nat"
begin

unbundle bit_operations_syntax

section \<open>Error registry (c/compiler/error.h)\<close>

text \<open>The anonymous enum of error.h: the enumerators are C ints numbered from 0.\<close>

definition ERR_OK :: int where "ERR_OK = 0"
definition ERR_NOMEM :: int where "ERR_NOMEM = 1"
definition ERR_LARGETEXT :: int where "ERR_LARGETEXT = 2"

definition error_codes :: "int list" where
  "error_codes = [ERR_OK, ERR_NOMEM, ERR_LARGETEXT]"

text \<open>Modelled from the spec: the bodies of ufxr_errname and ufxr_errtext. error.h only
  declares the two functions; the file that defines them is not among the sources. The
  spec asks for one short all-caps token and one human-readable sentence per code; the
  header documents \<^verbatim>\<open>ufxr_errname(ERR_LARGETEXT) = "LARGETEXT"\<close>. The other names
  follow that example (the enumerator without its prefix), and the texts are the comments
  the header puts on the enumerators. A code outside the enum has no entry (\<open>None\<close>):
  the spec leaves the behaviour there undefined.\<close>

definition ufxr_errname :: "int \<Rightarrow> string option" where
  "ufxr_errname err =
     (if err = ERR_OK then Some ''OK''
      else if err = ERR_NOMEM then Some ''NOMEM''
      else if err = ERR_LARGETEXT then Some ''LARGETEXT''
      else None)"

definition ufxr_errtext :: "int \<Rightarrow> string option" where
  "ufxr_errtext err =
     (if err = ERR_OK then Some ''No error.''
      else if err = ERR_NOMEM then Some ''Out of memory.''
      else if err = ERR_LARGETEXT then Some ''Source text too large.''
      else None)"

section \<open>IEEE 754 binary32\<close>

text \<open>A C \<^verbatim>\<open>float\<close> and one lane of an \<^verbatim>\<open>__m128\<close> are 32-bit patterns: sign bit,
  8 bits of biased exponent, 23 bits of fraction. \<open>fval\<close> is what a pattern denotes:
  \<open>Fin s m e\<close> is the number \<open>(-1)^s * m * 2^e\<close>. NaN payloads are not tracked: every
  NaN pattern decodes to \<open>NaN\<close>, and a NaN result is encoded as the quiet NaN 0x7FC00000.\<close>

type_synonym f32 = "32 word"

datatype fval = Fin bool int int | Inf bool | NaN

definition decode :: "f32 \<Rightarrow> fval" where
  "decode w =
     (let n = uint w; s = (2 ^ 31 \<le> n); E = (n div 2 ^ 23) mod 2 ^ 8; F = n mod 2 ^ 23
      in if E = 255 then (if F = 0 then Inf s else NaN)
         else if E = 0 then Fin s F (- 149)
         else Fin s (2 ^ 23 + F) (E - 150))"

fun encode :: "fval \<Rightarrow> f32" where
  "encode (Fin s m e) =
     word_of_int ((if s then 2 ^ 31 else 0) +
                  (if m < 2 ^ 23 then m else (e + 150) * 2 ^ 23 + (m - 2 ^ 23)))"
| "encode (Inf s) = (if s then 0xFF800000 else 0x7F800000)"
| "encode NaN = 0x7FC00000"

text \<open>The patterns a value of the format has: a significand from 0 to below \<open>2^24\<close>, an exponent
  between -149 and 104, and a normalised significand above the subnormal exponent.\<close>

fun valid :: "fval \<Rightarrow> bool" where
  "valid (Fin s m e) = (0 \<le> m \<and> m < 2 ^ 24 \<and> - 149 \<le> e \<and> e \<le> 104 \<and> (e = - 149 \<or> 2 ^ 23 \<le> m))"
| "valid (Inf s) = True"
| "valid NaN = True"

fun is_finite :: "fval \<Rightarrow> bool" where
  "is_finite (Fin s m e) = True"
| "is_finite (Inf s) = False"
| "is_finite NaN = False"

text \<open>The real number a finite value denotes (0 for infinities and NaN, which the
  theorems below exclude with \<open>is_finite\<close>).\<close>

fun valof :: "fval \<Rightarrow> real" where
  "valof (Fin s m e) = (if s then - 1 else 1) * real_of_int m * 2 powi e"
| "valof (Inf s) = 0"
| "valof NaN = 0"

subsection \<open>Rounding to nearest, ties to even\<close>

text \<open>\<open>rne_shift M k\<close> is \<open>M / 2^k\<close> rounded to the nearest integer (for \<open>0 \<le> M\<close>), a tie going
  to the even neighbour.\<close>

definition rne_shift :: "int \<Rightarrow> int \<Rightarrow> int" where
  "rne_shift M k =
     (if k \<le> 0 then M * 2 ^ nat (- k)
      else let d = 2 ^ nat k; q = M div d; r = M mod d
           in if d < 2 * r \<or> (2 * r = d \<and> odd q) then q + 1 else q)"

text \<open>\<open>round_f32 s M E\<close> is the binary32 value nearest to \<open>(-1)^s * M * 2^E\<close>: the
  exponent is chosen so that the significand has 24 bits (or is the subnormal exponent),
  the significand is rounded, a carry out of 24 bits renormalises, and an exponent above
  104 overflows to infinity.\<close>

definition round_f32 :: "bool \<Rightarrow> int \<Rightarrow> int \<Rightarrow> fval" where
  "round_f32 s M E =
     (let e = max (E + bitlen M - 24) (- 149);
          m = rne_shift M (e - E);
          m' = (if m = 2 ^ 24 then 2 ^ 23 else m);
          e' = (if m = 2 ^ 24 then e + 1 else e)
      in if m' = 0 then Fin s 0 (- 149)
         else if 104 < e' then Inf s
         else Fin s m' e')"

subsection \<open>Arithmetic on values\<close>

fun fneg_v :: "fval \<Rightarrow> fval" where
  "fneg_v (Fin s m e) = Fin (\<not> s) m e"
| "fneg_v (Inf s) = Inf (\<not> s)"
| "fneg_v NaN = NaN"

fun fabs_v :: "fval \<Rightarrow> fval" where
  "fabs_v (Fin s m e) = Fin False m e"
| "fabs_v (Inf s) = Inf False"
| "fabs_v NaN = NaN"

text \<open>The integer \<open>(-1)^s * m * 2^(e - E)\<close>, for \<open>E \<le> e\<close>.\<close>

definition scaled :: "int \<Rightarrow> bool \<Rightarrow> int \<Rightarrow> int \<Rightarrow> int" where
  "scaled E s m e = (if s then - 1 else 1) * m * 2 ^ nat (e - E)"

text \<open>Addition: the exact sum, rounded once. An exact zero sum is +0 unless both
  operands are negative zeros.\<close>

fun fadd_v :: "fval \<Rightarrow> fval \<Rightarrow> fval" where
  "fadd_v (Fin s1 m1 e1) (Fin s2 m2 e2) =
     (let E = min e1 e2; S = scaled E s1 m1 e1 + scaled E s2 m2 e2
      in if S = 0 then Fin (s1 \<and> s2) 0 (- 149) else round_f32 (S < 0) \<bar>S\<bar> E)"
| "fadd_v (Fin s1 m1 e1) (Inf s2) = Inf s2"
| "fadd_v (Inf s1) (Fin s2 m2 e2) = Inf s1"
| "fadd_v (Inf s1) (Inf s2) = (if s1 = s2 then Inf s1 else NaN)"
| "fadd_v NaN y = NaN"
| "fadd_v x NaN = NaN"

definition fsub_v :: "fval \<Rightarrow> fval \<Rightarrow> fval" where
  "fsub_v x y = fadd_v x (fneg_v y)"

fun fmul_v :: "fval \<Rightarrow> fval \<Rightarrow> fval" where
  "fmul_v (Fin s1 m1 e1) (Fin s2 m2 e2) = round_f32 (s1 \<noteq> s2) (m1 * m2) (e1 + e2)"
| "fmul_v (Fin s1 m1 e1) (Inf s2) = (if m1 = 0 then NaN else Inf (s1 \<noteq> s2))"
| "fmul_v (Inf s1) (Fin s2 m2 e2) = (if m2 = 0 then NaN else Inf (s1 \<noteq> s2))"
| "fmul_v (Inf s1) (Inf s2) = Inf (s1 \<noteq> s2)"
| "fmul_v NaN y = NaN"
| "fmul_v x NaN = NaN"

text \<open>The comparison \<^verbatim>\<open><\<close>: false when an operand is NaN; the two zeros are equal.\<close>

fun flt_v :: "fval \<Rightarrow> fval \<Rightarrow> bool" where
  "flt_v (Fin s1 m1 e1) (Fin s2 m2 e2) =
     (let E = min e1 e2 in scaled E s1 m1 e1 < scaled E s2 m2 e2)"
| "flt_v (Fin s1 m1 e1) (Inf s2) = (\<not> s2)"
| "flt_v (Inf s1) (Fin s2 m2 e2) = s1"
| "flt_v (Inf s1) (Inf s2) = (s1 \<and> \<not> s2)"
| "flt_v NaN y = False"
| "flt_v x NaN = False"

text \<open>The comparison \<^verbatim>\<open>==\<close>: false when an operand is NaN; the two zeros are equal.\<close>

fun feq_v :: "fval \<Rightarrow> fval \<Rightarrow> bool" where
  "feq_v (Fin s1 m1 e1) (Fin s2 m2 e2) =
     (let E = min e1 e2 in scaled E s1 m1 e1 = scaled E s2 m2 e2)"
| "feq_v (Inf s1) (Inf s2) = (s1 = s2)"
| "feq_v x y = False"

text \<open>Conversion to a 32-bit integer: \<open>None\<close> when the source is not finite or the
  integer does not fit.\<close>

definition int32_of :: "int \<Rightarrow> int option" where
  "int32_of n = (if - (2 ^ 31) \<le> n \<and> n < 2 ^ 31 then Some n else None)"

fun nearest_int_v :: "fval \<Rightarrow> int option" where
  "nearest_int_v (Fin s m e) = int32_of ((if s then - 1 else 1) * rne_shift m (- e))"
| "nearest_int_v (Inf s) = None"
| "nearest_int_v NaN = None"

fun trunc_int_v :: "fval \<Rightarrow> int option" where
  "trunc_int_v (Fin s m e) =
     int32_of ((if s then - 1 else 1) *
               (if 0 \<le> e then m * 2 ^ nat e else m div 2 ^ nat (- e)))"
| "trunc_int_v (Inf s) = None"
| "trunc_int_v NaN = None"

definition of_int_v :: "int \<Rightarrow> fval" where
  "of_int_v n = round_f32 (n < 0) \<bar>n\<bar> 0"

subsection \<open>Operations on bit patterns\<close>

definition f32_sub :: "f32 \<Rightarrow> f32 \<Rightarrow> f32" where
  "f32_sub a b = encode (fsub_v (decode a) (decode b))"

definition f32_mul :: "f32 \<Rightarrow> f32 \<Rightarrow> f32" where
  "f32_mul a b = encode (fmul_v (decode a) (decode b))"

definition f32_neg :: "f32 \<Rightarrow> f32" where
  "f32_neg a = encode (fneg_v (decode a))"

definition f32_lt :: "f32 \<Rightarrow> f32 \<Rightarrow> bool" where
  "f32_lt a b = flt_v (decode a) (decode b)"

definition f32_eq :: "f32 \<Rightarrow> f32 \<Rightarrow> bool" where
  "f32_eq a b = feq_v (decode a) (decode b)"

text \<open>A decimal literal of the source, given as \<open>M * 2^E\<close>.\<close>

definition f32_lit :: "bool \<Rightarrow> int \<Rightarrow> int \<Rightarrow> f32" where
  "f32_lit s M E = encode (round_f32 s M E)"

definition fabsf :: "f32 \<Rightarrow> f32" where
  "fabsf x = x AND 0x7FFFFFFF"

text \<open>\<^verbatim>\<open>(int)x\<close>: truncation towards zero; the behaviour is undefined when the integral
  part is not an \<^verbatim>\<open>int\<close> (C11 6.3.1.4), which the model reports as an error.\<close>

datatype error = AssertFailed | OutOfBounds | UndefinedConversion

definition cast_int :: "f32 \<Rightarrow> error + 32 word" where
  "cast_int x = (case trunc_int_v (decode x) of None \<Rightarrow> Inl UndefinedConversion
                 | Some n \<Rightarrow> Inr (word_of_int n))"

definition cast_float :: "32 word \<Rightarrow> f32" where
  "cast_float k = encode (of_int_v (sint k))"

section \<open>The kernel (c/ops/sin1_2.c)\<close>

text \<open>Modelled from the spec: the macro UFXR_QUANTUM of c/ops/ops.h, which is not among
  the sources. The spec gives the quantum as the vector lane count, 4.\<close>

definition UFXR_QUANTUM :: int where
  "UFXR_QUANTUM = 4"

text \<open>The two buffers are \<^verbatim>\<open>restrict\<close> pointers: the input is a list that is only
  read, the output a list that the state carries. The state also records every element
  access, in order.\<close>

datatype access = Load nat | Store nat

record kernel_state =
  outs :: "f32 list"
  trace :: "access list"

subsection \<open>The SSE2 version\<close>

datatype m128 = M128 f32 f32 f32 f32

fun map_ps :: "(f32 \<Rightarrow> f32) \<Rightarrow> m128 \<Rightarrow> m128" where
  "map_ps f (M128 a b c d) = M128 (f a) (f b) (f c) (f d)"

fun zip_ps :: "(f32 \<Rightarrow> f32 \<Rightarrow> f32) \<Rightarrow> m128 \<Rightarrow> m128 \<Rightarrow> m128" where
  "zip_ps f (M128 a b c d) (M128 a' b' c' d') = M128 (f a a') (f b b') (f c c') (f d d')"

definition mm_set1_epi32 :: "32 word \<Rightarrow> m128" where
  "mm_set1_epi32 k = M128 k k k k"

definition mm_srli_epi32 :: "m128 \<Rightarrow> nat \<Rightarrow> m128" where
  "mm_srli_epi32 v c = map_ps (drop_bit c) v"

definition mm_castsi128_ps :: "m128 \<Rightarrow> m128" where
  "mm_castsi128_ps v = v"

definition mm_set1_ps :: "f32 \<Rightarrow> m128" where
  "mm_set1_ps x = M128 x x x x"

text \<open>CVTPS2DQ under the default rounding mode of MXCSR (to nearest, ties to even): a
  source that is NaN, infinite or outside the int range gives the integer indefinite
  0x80000000.\<close>

definition cvtps_epi32 :: "f32 \<Rightarrow> 32 word" where
  "cvtps_epi32 x = (case nearest_int_v (decode x) of None \<Rightarrow> 0x80000000
                    | Some n \<Rightarrow> word_of_int n)"

definition mm_cvtps_epi32 :: "m128 \<Rightarrow> m128" where
  "mm_cvtps_epi32 v = map_ps cvtps_epi32 v"

definition mm_cvtepi32_ps :: "m128 \<Rightarrow> m128" where
  "mm_cvtepi32_ps v = map_ps cast_float v"

definition mm_sub_ps :: "m128 \<Rightarrow> m128 \<Rightarrow> m128" where
  "mm_sub_ps v w = zip_ps f32_sub v w"

definition mm_mul_ps :: "m128 \<Rightarrow> m128 \<Rightarrow> m128" where
  "mm_mul_ps v w = zip_ps f32_mul v w"

definition mm_and_ps :: "m128 \<Rightarrow> m128 \<Rightarrow> m128" where
  "mm_and_ps v w = zip_ps (AND) v w"

definition mm_load_ps :: "f32 list \<Rightarrow> int \<Rightarrow> kernel_state \<Rightarrow> error + (m128 \<times> kernel_state)" where
  "mm_load_ps xs i st =
     (if 0 \<le> i \<and> nat i + 4 \<le> length xs
      then let j = nat i
           in Inr (M128 (xs ! j) (xs ! (j + 1)) (xs ! (j + 2)) (xs ! (j + 3)),
                   st\<lparr>trace := trace st @ [Load j, Load (j + 1), Load (j + 2), Load (j + 3)]\<rparr>)
      else Inl OutOfBounds)"

fun mm_store_ps :: "int \<Rightarrow> m128 \<Rightarrow> kernel_state \<Rightarrow> error + kernel_state" where
  "mm_store_ps i (M128 a b c d) st =
     (if 0 \<le> i \<and> nat i + 4 \<le> length (outs st)
      then let j = nat i
           in Inr (st\<lparr>outs := (outs st)[j := a, j + 1 := b, j + 2 := c, j + 3 := d],
                      trace := trace st @ [Store j, Store (j + 1), Store (j + 2), Store (j + 3)]\<rparr>)
      else Inl OutOfBounds)"

definition abs_mask :: m128 where
  "abs_mask = mm_castsi128_ps (mm_srli_epi32 (mm_set1_epi32 (- 1)) 1)"

definition c2 :: m128 where
  "c2 = mm_set1_ps (f32_lit False 8 0)"

definition c3 :: m128 where
  "c3 = mm_set1_ps (f32_lit False 16 0)"

text \<open>The two assignments to \<open>x\<close> in the loop body.\<close>

definition sse_reduce :: "m128 \<Rightarrow> m128" where
  "sse_reduce x = mm_sub_ps x (mm_cvtepi32_ps (mm_cvtps_epi32 x))"

definition sse_shape :: "m128 \<Rightarrow> m128" where
  "sse_shape x = mm_mul_ps x (mm_sub_ps c2 (mm_mul_ps c3 (mm_and_ps x abs_mask)))"

function sse_loop :: "int \<Rightarrow> f32 list \<Rightarrow> int \<Rightarrow> kernel_state \<Rightarrow> error + kernel_state" where
  "sse_loop n xs i st =
     (if i < n
      then (case mm_load_ps xs i st of
              Inl e \<Rightarrow> Inl e
            | Inr (x, st1) \<Rightarrow>
                (case mm_store_ps i (sse_shape (sse_reduce x)) st1 of
                   Inl e \<Rightarrow> Inl e
                 | Inr st2 \<Rightarrow> sse_loop n xs (i + 4) st2))
      else Inr st)"
  by pat_completeness auto
termination
  by (relation "measure (\<lambda>(n, xs, i, st). nat (n - i))") auto

definition ufxr_sin1_2_sse :: "int \<Rightarrow> f32 list \<Rightarrow> f32 list \<Rightarrow> error + kernel_state" where
  "ufxr_sin1_2_sse n outs0 xs =
     (if n mod UFXR_QUANTUM \<noteq> 0 then Inl AssertFailed
      else sse_loop n xs 0 \<lparr>outs = outs0, trace = []\<rparr>)"

subsection \<open>The scalar version\<close>

definition load_f32 :: "f32 list \<Rightarrow> int \<Rightarrow> kernel_state \<Rightarrow> error + (f32 \<times> kernel_state)" where
  "load_f32 xs i st =
     (if 0 \<le> i \<and> nat i < length xs
      then Inr (xs ! nat i, st\<lparr>trace := trace st @ [Load (nat i)]\<rparr>)
      else Inl OutOfBounds)"

definition store_f32 :: "int \<Rightarrow> f32 \<Rightarrow> kernel_state \<Rightarrow> error + kernel_state" where
  "store_f32 i v st =
     (if 0 \<le> i \<and> nat i < length (outs st)
      then Inr (st\<lparr>outs := (outs st)[nat i := v], trace := trace st @ [Store (nat i)]\<rparr>)
      else Inl OutOfBounds)"

text \<open>\<^verbatim>\<open>x -= (float)(int)x\<close>\<close>

definition scalar_reduce :: "f32 \<Rightarrow> error + f32" where
  "scalar_reduce x =
     (case cast_int x of Inl e \<Rightarrow> Inl e | Inr k \<Rightarrow> Inr (f32_sub x (cast_float k)))"

text \<open>The two folds. \<open>t2\<close> is computed from \<open>x\<close> before the first fold and compared with
  \<open>x\<close> after it, as in the source.\<close>

definition scalar_fold :: "f32 \<Rightarrow> f32" where
  "scalar_fold x =
     (let t1 = f32_sub (f32_lit False 1 (- 1)) x;
          t2 = f32_sub (f32_lit True 1 (- 1)) x;
          x1 = (if f32_lt t1 x then t1 else x);
          x2 = (if f32_lt x1 t2 then t2 else x1)
      in x2)"

definition scalar_shape :: "f32 \<Rightarrow> f32" where
  "scalar_shape x = f32_mul x (f32_sub (f32_lit False 8 0) (f32_mul (f32_lit False 16 0) (fabsf x)))"

definition scalar_elem :: "f32 \<Rightarrow> error + f32" where
  "scalar_elem x =
     (case scalar_reduce x of Inl e \<Rightarrow> Inl e | Inr x' \<Rightarrow> Inr (scalar_shape (scalar_fold x')))"

function scalar_loop :: "int \<Rightarrow> f32 list \<Rightarrow> int \<Rightarrow> kernel_state \<Rightarrow> error + kernel_state" where
  "scalar_loop n xs i st =
     (if i < n
      then (case load_f32 xs i st of
              Inl e \<Rightarrow> Inl e
            | Inr (x, st1) \<Rightarrow>
                (case scalar_elem x of
                   Inl e \<Rightarrow> Inl e
                 | Inr y \<Rightarrow>
                     (case store_f32 i y st1 of
                        Inl e \<Rightarrow> Inl e
                      | Inr st2 \<Rightarrow> scalar_loop n xs (i + 1) st2)))
      else Inr st)"
  by pat_completeness auto
termination
  by (relation "measure (\<lambda>(n, xs, i, st). nat (n - i))") auto

definition ufxr_sin1_2_scalar :: "int \<Rightarrow> f32 list \<Rightarrow> f32 list \<Rightarrow> error + kernel_state" where
  "ufxr_sin1_2_scalar n outs0 xs =
     (if n mod UFXR_QUANTUM \<noteq> 0 then Inl AssertFailed
      else scalar_loop n xs 0 \<lparr>outs = outs0, trace = []\<rparr>)"

declare sse_loop.simps [simp del] scalar_loop.simps [simp del]

section \<open>Reading a pattern as a number\<close>

definition finite32 :: "f32 \<Rightarrow> bool" where
  "finite32 x = is_finite (decode x)"

definition val :: "f32 \<Rightarrow> real" where
  "val x = valof (decode x)"

text \<open>The inputs whose integer part is a C \<^verbatim>\<open>int\<close>: finite, from \<open>-2^31\<close> to below
  \<open>2^31\<close>; and those whose negation is such an input too.\<close>

definition in_range :: "f32 \<Rightarrow> bool" where
  "in_range x = (finite32 x \<and> - (2 ^ 31) \<le> val x \<and> val x < 2 ^ 31)"

definition sym_range :: "f32 \<Rightarrow> bool" where
  "sym_range x = (finite32 x \<and> \<bar>val x\<bar> < 2 ^ 31)"

subsection \<open>Rounding, stated on real numbers\<close>

text \<open>These follow the words of IEEE 754 rather than the code: the integer nearest to a
  real, a tie going to the even one; the integer part of a real; and the binary32 number
  nearest to a real, which is the real rounded at the exponent of its last place.\<close>

definition round_half_even :: "real \<Rightarrow> int" where
  "round_half_even r =
     (let f = \<lfloor>r\<rfloor>; d = r - of_int f
      in if d < 1 / 2 then f else if 1 / 2 < d then f + 1 else if even f then f else f + 1)"

definition trunc_real :: "real \<Rightarrow> int" where
  "trunc_real r = (if 0 \<le> r then \<lfloor>r\<rfloor> else \<lceil>r\<rceil>)"

definition ulp_exp :: "real \<Rightarrow> int" where
  "ulp_exp r = max (\<lfloor>log 2 \<bar>r\<bar>\<rfloor> - 23) (- 149)"

definition rnd :: "real \<Rightarrow> real" where
  "rnd r = of_int (round_half_even (r * 2 powi (- ulp_exp r))) * 2 powi (ulp_exp r)"

definition representable :: "real \<Rightarrow> bool" where
  "representable r = (\<exists>m e. \<bar>m\<bar> < 2 ^ 24 \<and> - 149 \<le> e \<and> r = of_int m * 2 powi e)"

subsection \<open>The kernel, stated on real numbers\<close>

text \<open>What the two phase reductions and the two folds of the scalar version compute, as
  functions on reals; the shaping \<open>x * (8 - 16 * |x|)\<close> computed exactly; and the same
  shaping with each of its three operations rounded to binary32, as the code does.\<close>

definition sse_reduced :: "real \<Rightarrow> real" where
  "sse_reduced v = v - of_int (round_half_even v)"

definition scalar_reduced :: "real \<Rightarrow> real" where
  "scalar_reduced v = v - of_int (trunc_real v)"

definition fold_real :: "real \<Rightarrow> real" where
  "fold_real w = (if 1 / 4 < w then 1 / 2 - w else if w < - (1 / 4) then - (1 / 2) - w else w)"

definition shape_exact :: "real \<Rightarrow> real" where
  "shape_exact w = w * (8 - 16 * \<bar>w\<bar>)"

definition shape_real :: "real \<Rightarrow> real" where
  "shape_real w = rnd (w * rnd (8 - rnd (16 * \<bar>w\<bar>)))"

section \<open>Single elements\<close>

text \<open>The call contract of both versions: \<open>n\<close> is a multiple of the quantum and both
  buffers hold at least \<open>n\<close> elements.\<close>

definition batch_ok :: "int \<Rightarrow> f32 list \<Rightarrow> f32 list \<Rightarrow> bool" where
  "batch_ok n os xs = (n mod UFXR_QUANTUM = 0 \<and> nat n \<le> length xs \<and> nat n \<le> length os)"

fun lane :: "nat \<Rightarrow> m128 \<Rightarrow> f32" where
  "lane i (M128 a b c d) = [a, b, c, d] ! i"

text \<open>One lane of the SSE2 loop body, for statements about a single element.\<close>

definition sse_reduce_lane :: "f32 \<Rightarrow> f32" where
  "sse_reduce_lane x = f32_sub x (cast_float (cvtps_epi32 x))"

definition sse_shape_lane :: "f32 \<Rightarrow> f32" where
  "sse_shape_lane x =
     f32_mul x (f32_sub (f32_lit False 8 0) (f32_mul (f32_lit False 16 0) (x AND 0x7FFFFFFF)))"

definition sse_elem :: "f32 \<Rightarrow> f32" where
  "sse_elem x = sse_shape_lane (sse_reduce_lane x)"

section \<open>Properties of the arithmetic\<close>

subsection \<open>Rounding to an integer\<close>

lemma rhe_bounds: "\<bar>of_int (round_half_even r) - r\<bar> \<le> 1 / 2"
  unfolding round_half_even_def Let_def by (auto simp: abs_le_iff; linarith)

lemma rhe_of_int [simp]: "round_half_even (of_int z) = z"
  unfolding round_half_even_def Let_def by simp

lemma rhe_le_int: "r \<le> of_int z \<Longrightarrow> round_half_even r \<le> z"
proof -
  assume a: "r \<le> of_int z"
  have "\<lfloor>r\<rfloor> \<le> z" using a by (simp add: floor_le_iff)
  show ?thesis
  proof (cases "\<lfloor>r\<rfloor> = z")
    case True
    then have "r = of_int z" using a by linarith
    then show ?thesis by simp
  next
    case False
    then have "\<lfloor>r\<rfloor> + 1 \<le> z" using \<open>\<lfloor>r\<rfloor> \<le> z\<close> by linarith
    then show ?thesis unfolding round_half_even_def Let_def by auto
  qed
qed

lemma rhe_ge_int: "of_int z \<le> r \<Longrightarrow> z \<le> round_half_even r"
proof -
  assume a: "of_int z \<le> r"
  then have "z \<le> \<lfloor>r\<rfloor>" by (simp add: le_floor_iff)
  then show ?thesis unfolding round_half_even_def Let_def by auto
qed

lemma rhe_minus: "round_half_even (- r) = - round_half_even r"
proof (cases "r = of_int \<lfloor>r\<rfloor>")
  case True
  then obtain z where "r = of_int z" by blast
  then show ?thesis by (simp flip: of_int_minus)
next
  case False
  then have f: "\<lfloor>- r\<rfloor> = - \<lfloor>r\<rfloor> - 1"
    by (simp add: floor_minus ceiling_altdef)
  show ?thesis unfolding round_half_even_def Let_def f using False
    by (auto; linarith)
qed

lemma rhe_add_int_nontie:
  "r - of_int \<lfloor>r\<rfloor> \<noteq> 1 / 2 \<Longrightarrow> round_half_even (r + of_int k) = round_half_even r + k"
  unfolding round_half_even_def Let_def by (auto simp: algebra_simps)

lemma rhe_add_even: "even k \<Longrightarrow> round_half_even (r + of_int k) = round_half_even r + k"
  unfolding round_half_even_def Let_def by (auto simp: algebra_simps)

lemma rne_shift_rhe:
  assumes "0 \<le> M"
  shows "rne_shift M k = round_half_even (of_int M * 2 powi (- k))"
proof (cases "k \<le> 0")
  case True
  then have "of_int M * 2 powi (- k) = (of_int (M * 2 ^ nat (- k)) :: real)"
    by (simp add: power_int_nonneg_exp)
  then show ?thesis using True by (simp add: rne_shift_def del: of_int_mult of_int_power)
next
  case False
  define d :: int where "d = 2 ^ nat k"
  have dpos: "0 < d" by (simp add: d_def)
  have p: "(2::real) powi (- k) = 1 / of_int d"
    using False by (simp add: d_def power_int_minus_divide power_int_nonneg_exp)
  have fl: "\<lfloor>of_int M / (of_int d :: real)\<rfloor> = M div d"
    by (simp add: floor_divide_of_int_eq)
  have fr: "of_int M / (of_int d :: real) - of_int (M div d) = of_int (M mod d) / of_int d"
    using dpos by (simp add: field_simps flip: of_int_mult of_int_add)
  have c1: "(of_int (M mod d) / (of_int d :: real) < 1 / 2) = (2 * (M mod d) < d)"
  proof -
    have "(of_int (M mod d) / (of_int d :: real) < 1 / 2) = (of_int (2 * (M mod d)) < (of_int d :: real))"
      using dpos by (simp add: field_simps)
    then show ?thesis by (simp only: of_int_less_iff)
  qed
  have c2: "(1 / 2 < of_int (M mod d) / (of_int d :: real)) = (d < 2 * (M mod d))"
  proof -
    have "(1 / 2 < of_int (M mod d) / (of_int d :: real)) = ((of_int d :: real) < of_int (2 * (M mod d)))"
      using dpos by (simp add: field_simps)
    then show ?thesis by (simp only: of_int_less_iff)
  qed
  have r: "of_int M * 2 powi (- k) = (of_int M / of_int d :: real)"
    by (simp add: p)
  have rhe: "round_half_even (of_int M / of_int d) =
      (if 2 * (M mod d) < d then M div d else if d < 2 * (M mod d) then M div d + 1
       else if even (M div d) then M div d else M div d + 1)"
    unfolding round_half_even_def Let_def fl fr c1 c2 by (rule refl)
  have "rne_shift M k = (if d < 2 * (M mod d) \<or> (2 * (M mod d) = d \<and> odd (M div d)) then M div d + 1 else M div d)"
    using False by (simp add: rne_shift_def Let_def d_def)
  then show ?thesis
    unfolding r rhe by auto
qed

subsection \<open>Rounding a real to binary32\<close>

lemma powr_powi: "(2::real) powr (of_int k) = 2 powi k"
  by (simp add: powr_real_of_int power_int_def power_one_over inverse_eq_divide)

lemma p2_add: "(2::real) powi (a + b) = 2 powi a * 2 powi b"
  by (simp add: power_int_add)

lemma p2_diff: "(2::real) powi (a - b) = 2 powi a / 2 powi b"
  by (simp add: power_int_diff)

lemma p2_mono: "a \<le> b \<Longrightarrow> (2::real) powi a \<le> 2 powi b"
  by (simp add: power_int_increasing)

lemma p2_strict_mono: "a < b \<Longrightarrow> (2::real) powi a < 2 powi b"
  by (simp add: power_int_strict_increasing)

lemma p2_less_cancel:
  assumes "(2::real) powi a < 2 powi b"
  shows "a < b"
proof (rule ccontr)
  assume "\<not> a < b"
  then have "b \<le> a" by simp
  from p2_mono[OF this] assms show False by linarith
qed

lemma floor_log2_eq: "0 < r \<Longrightarrow> (\<lfloor>log 2 r\<rfloor> = k) = (2 powi k \<le> r \<and> r < 2 powi (k + 1))"
proof -
  have e: "(2::real) powr (real_of_int k + 1) = 2 powi (k + 1)"
    using powr_powi[of "k + 1"] by simp
  assume "0 < r"
  then show ?thesis
    using floor_log_eq_powr_iff[of r 2 k] by (simp add: powr_powi e)
qed

lemma floor_log2_bounds:
  assumes "0 < r"
  shows "2 powi \<lfloor>log 2 r\<rfloor> \<le> r" "r < 2 powi (\<lfloor>log 2 r\<rfloor> + 1)"
  using floor_log2_eq[OF assms, of "\<lfloor>log 2 r\<rfloor>"] by simp_all

lemma floor_log2_less: "0 < r \<Longrightarrow> r < 2 powi j \<Longrightarrow> \<lfloor>log 2 r\<rfloor> < j"
  using floor_log2_bounds(1)[of r] p2_less_cancel[of "\<lfloor>log 2 r\<rfloor>" j] by linarith

lemma floor_log2_ge: "0 < r \<Longrightarrow> 2 powi j \<le> r \<Longrightarrow> j \<le> \<lfloor>log 2 r\<rfloor>"
  using floor_log2_bounds(2)[of r] p2_less_cancel[of j "\<lfloor>log 2 r\<rfloor> + 1"] by linarith

lemma ulp_exp_minus [simp]: "ulp_exp (- r) = ulp_exp r"
  by (simp add: ulp_exp_def)

lemma ulp_exp_abs [simp]: "ulp_exp \<bar>r\<bar> = ulp_exp r"
  by (simp add: ulp_exp_def)

lemma ulp_exp_ge: "- 149 \<le> ulp_exp r"
  by (simp add: ulp_exp_def)

lemma ulp_exp_upper: "r \<noteq> 0 \<Longrightarrow> \<bar>r\<bar> < 2 powi (ulp_exp r + 24)"
proof -
  assume "r \<noteq> 0"
  then have p: "0 < \<bar>r\<bar>" by simp
  have "\<lfloor>log 2 \<bar>r\<bar>\<rfloor> + 1 \<le> ulp_exp r + 24" by (simp add: ulp_exp_def)
  then show ?thesis using floor_log2_bounds(2)[OF p] p2_mono by (meson less_le_trans)
qed

lemma ulp_exp_lower: "r \<noteq> 0 \<Longrightarrow> - 149 < ulp_exp r \<Longrightarrow> 2 powi (ulp_exp r + 23) \<le> \<bar>r\<bar>"
proof -
  assume "r \<noteq> 0" and u: "- 149 < ulp_exp r"
  then have p: "0 < \<bar>r\<bar>" by simp
  have "ulp_exp r + 23 = \<lfloor>log 2 \<bar>r\<bar>\<rfloor>" using u by (simp add: ulp_exp_def max_def split: if_splits)
  then show ?thesis using floor_log2_bounds(1)[OF p] by simp
qed

lemma ulp_exp_le: "r \<noteq> 0 \<Longrightarrow> \<bar>r\<bar> < 2 powi j \<Longrightarrow> - 125 \<le> j \<Longrightarrow> ulp_exp r \<le> j - 24"
proof -
  assume "r \<noteq> 0" and b: "\<bar>r\<bar> < 2 powi j" and j: "- 125 \<le> j"
  then have p: "0 < \<bar>r\<bar>" by simp
  have "\<lfloor>log 2 \<bar>r\<bar>\<rfloor> < j" using floor_log2_less[OF p b] .
  then show ?thesis using j by (simp add: ulp_exp_def)
qed

lemma rnd_0 [simp]: "rnd 0 = 0"
  using rhe_of_int[of 0] by (simp add: rnd_def)

lemma rnd_minus: "rnd (- r) = - rnd r"
  by (simp add: rnd_def rhe_minus)

lemma rnd_err_ulp: "\<bar>rnd r - r\<bar> \<le> 2 powi (ulp_exp r - 1)"
proof -
  define u where "u = ulp_exp r"
  have "rnd r - r = (of_int (round_half_even (r * 2 powi (- u))) - r * 2 powi (- u)) * 2 powi u"
    by (simp add: rnd_def u_def algebra_simps flip: p2_add)
  then have "\<bar>rnd r - r\<bar> = \<bar>of_int (round_half_even (r * 2 powi (- u))) - r * 2 powi (- u)\<bar> * 2 powi u"
    by (simp add: abs_mult)
  also have "\<dots> \<le> (1 / 2) * 2 powi u"
    by (rule mult_right_mono[OF rhe_bounds]) simp
  also have "\<dots> = 2 powi (u - 1)"
    by (simp add: p2_diff)
  finally show ?thesis by (simp add: u_def)
qed

lemma rnd_err: "\<bar>r\<bar> < 2 powi j \<Longrightarrow> - 125 \<le> j \<Longrightarrow> \<bar>rnd r - r\<bar> \<le> 2 powi (j - 25)"
proof (cases "r = 0")
  case True
  then show ?thesis by simp
next
  case False
  assume b: "\<bar>r\<bar> < 2 powi j" and j: "- 125 \<le> j"
  have "ulp_exp r - 1 \<le> j - 25" using ulp_exp_le[OF False b j] by simp
  then have "(2::real) powi (ulp_exp r - 1) \<le> 2 powi (j - 25)" by (rule p2_mono)
  then show ?thesis using rnd_err_ulp[of r] by linarith
qed

lemma int_p2: "0 \<le> k \<Longrightarrow> \<exists>z::int. (2::real) powi k = of_int z"
  by (rule exI[of _ "2 ^ nat k"]) (simp add: power_int_nonneg_exp)

lemma rnd_exact:
  assumes "representable r"
  shows "rnd r = r"
proof (cases "r = 0")
  case True
  then show ?thesis by simp
next
  case False
  from assms obtain m e where m: "\<bar>m\<bar> < 2 ^ 24" and e: "- 149 \<le> e" and r: "r = of_int m * 2 powi e"
    unfolding representable_def by blast
  define u where "u = ulp_exp r"
  have "\<bar>r\<bar> < 2 powi (e + 24)"
  proof -
    have "\<bar>r\<bar> = of_int \<bar>m\<bar> * 2 powi e" by (simp add: r abs_mult)
    also have "\<dots> < 2 ^ 24 * 2 powi e"
      using m by (intro mult_strict_right_mono) (simp_all flip: of_int_less_iff)
    finally show ?thesis by (simp add: p2_add)
  qed
  have p: "0 < \<bar>r\<bar>" using False by simp
  have "\<lfloor>log 2 \<bar>r\<bar>\<rfloor> < e + 24" using floor_log2_less[OF p \<open>\<bar>r\<bar> < 2 powi (e + 24)\<close>] .
  then have ue: "u \<le> e" using e by (simp add: u_def ulp_exp_def)
  then obtain z :: int where z: "(2::real) powi (e - u) = of_int z" using int_p2[of "e - u"] by auto
  have "r * 2 powi (- u) = of_int m * 2 powi (e - u)"
    by (simp add: r p2_add power_int_minus field_simps power_int_diff)
  also have "\<dots> = of_int (m * z)" by (simp add: z)
  finally have "round_half_even (r * 2 powi (- u)) = m * z" by (simp only: rhe_of_int)
  then have "rnd r = of_int (m * z) * 2 powi u" by (simp add: rnd_def u_def)
  also have "\<dots> = of_int m * (2 powi (e - u) * 2 powi u)" by (simp add: z)
  also have "\<dots> = r" by (simp add: r flip: p2_add)
  finally show ?thesis .
qed

lemma representable_minus: "representable r \<Longrightarrow> representable (- r)"
  unfolding representable_def
  apply (elim exE conjE)
  subgoal for m e by (rule exI[of _ "- m"], rule exI[of _ e]) simp
  done

lemma representable_0 [simp]: "representable 0"
  unfolding representable_def by (rule exI[of _ 0], rule exI[of _ 0]) simp

lemma rnd_nonneg: "0 \<le> r \<Longrightarrow> 0 \<le> rnd r"
proof -
  assume "0 \<le> r"
  then have "of_int 0 \<le> r * 2 powi (- ulp_exp r)" by simp
  then have "0 \<le> round_half_even (r * 2 powi (- ulp_exp r))" by (rule rhe_ge_int)
  then show ?thesis by (simp add: rnd_def)
qed

lemma rnd_scaled:
  "rnd r = of_int (round_half_even (r * 2 powi (- ulp_exp r))) * 2 powi (ulp_exp r)"
  by (simp add: rnd_def)

lemma scale_back: "(x * 2 powi (- u)) * 2 powi u = (x::real)"
  by (simp add: power_int_minus)

lemma rep_lt: 
  assumes "\<bar>m\<bar> < 2 ^ 24"
  shows "\<bar>of_int m * 2 powi e\<bar> < (2::real) powi (e + 24)"
proof -
  have "\<bar>of_int m * (2::real) powi e\<bar> = of_int \<bar>m\<bar> * 2 powi e" by (simp add: abs_mult)
  also have "\<dots> < 2 ^ 24 * 2 powi e"
    using assms by (intro mult_strict_right_mono) (simp_all flip: of_int_less_iff)
  finally show ?thesis by (simp add: p2_add)
qed

lemma scale_mono: "(a::int) \<le> b \<Longrightarrow> (of_int a :: real) * 2 powi u \<le> of_int b * 2 powi u"
  by (simp add: mult_right_mono)

lemma rnd_le_pos:
  assumes r: "0 < r" and le: "r \<le> b" and rep: "representable b"
  shows "rnd r \<le> b"
proof -
  from rep obtain m e where m: "\<bar>m\<bar> < 2 ^ 24" and e: "- 149 \<le> e" and b: "b = of_int m * 2 powi e"
    unfolding representable_def by blast
  define u where "u = ulp_exp r"
  have bl: "\<bar>b\<bar> < 2 powi (e + 24)" unfolding b by (rule rep_lt[OF m])
  have rn: "r \<noteq> 0" using r by simp
  show ?thesis
  proof (cases "u \<le> e")
    case True
    then obtain z :: int where z: "(2::real) powi (e - u) = of_int z" using int_p2[of "e - u"] by auto
    have bz: "b * 2 powi (- u) = of_int (m * z)"
      by (simp add: b power_int_minus field_simps flip: z) (simp add: power_int_diff)
    have "r * 2 powi (- u) \<le> b * 2 powi (- u)"
      using le by (intro mult_right_mono) simp_all
    then have "round_half_even (r * 2 powi (- u)) \<le> m * z"
      unfolding bz by (rule rhe_le_int)
    then have "of_int (round_half_even (r * 2 powi (- u))) * 2 powi u \<le> (of_int (m * z) :: real) * 2 powi u"
      by (rule scale_mono)
    also have "\<dots> = b" using scale_back[of b u] by (simp only: bz[symmetric])
    finally show ?thesis by (simp add: rnd_def u_def)
  next
    case False
    then have "- 149 < u" using e by simp
    then have "2 powi (u + 23) \<le> \<bar>r\<bar>" unfolding u_def using ulp_exp_lower[OF rn] by simp
    moreover have "(2::real) powi (e + 24) \<le> 2 powi (u + 23)" using False by (intro p2_mono) simp
    ultimately have "\<bar>b\<bar> < \<bar>r\<bar>" using bl by linarith
    then show ?thesis using r le by simp
  qed
qed

lemma rnd_ge_pos:
  assumes bp: "0 < b" and le: "b \<le> r" and rep: "representable b"
  shows "b \<le> rnd r"
proof -
  from rep obtain m e where m: "\<bar>m\<bar> < 2 ^ 24" and e: "- 149 \<le> e" and b: "b = of_int m * 2 powi e"
    unfolding representable_def by blast
  define u where "u = ulp_exp r"
  have bl: "\<bar>b\<bar> < 2 powi (e + 24)" unfolding b by (rule rep_lt[OF m])
  have r: "0 < r" using bp le by simp
  have rn: "r \<noteq> 0" using r by simp
  show ?thesis
  proof (cases "u \<le> e")
    case True
    then obtain z :: int where z: "(2::real) powi (e - u) = of_int z" using int_p2[of "e - u"] by auto
    have bz: "b * 2 powi (- u) = of_int (m * z)"
      by (simp add: b power_int_minus field_simps flip: z) (simp add: power_int_diff)
    have "b * 2 powi (- u) \<le> r * 2 powi (- u)"
      using le by (intro mult_right_mono) simp_all
    then have "m * z \<le> round_half_even (r * 2 powi (- u))"
      unfolding bz by (rule rhe_ge_int)
    then have "(of_int (m * z) :: real) * 2 powi u \<le> of_int (round_half_even (r * 2 powi (- u))) * 2 powi u"
      by (rule scale_mono)
    moreover have "(of_int (m * z) :: real) * 2 powi u = b" using scale_back[of b u] by (simp only: bz[symmetric])
    ultimately have "b \<le> of_int (round_half_even (r * 2 powi (- u))) * 2 powi u" by (simp only:)
    then show ?thesis by (simp add: rnd_def u_def)
  next
    case False
    then have u: "- 149 < u" using e by simp
    then have "2 powi (u + 23) \<le> \<bar>r\<bar>" unfolding u_def using ulp_exp_lower[OF rn] by simp
    then have "2 powi (u + 23) * 2 powi (- u) \<le> r * 2 powi (- u)"
      using r by (intro mult_right_mono) simp_all
    then have "of_int (2 ^ 23) \<le> r * 2 powi (- u)"
      by (simp flip: p2_add)
    then have "2 ^ 23 \<le> round_half_even (r * 2 powi (- u))" by (rule rhe_ge_int)
    then have "(of_int (2 ^ 23) :: real) * 2 powi u \<le> of_int (round_half_even (r * 2 powi (- u))) * 2 powi u"
      by (rule scale_mono)
    then have "2 powi (u + 23) \<le> rnd r"
      by (simp add: rnd_def u_def p2_add)
    moreover have "(2::real) powi (e + 24) \<le> 2 powi (u + 23)" using False by (intro p2_mono) simp
    ultimately show ?thesis using bl by linarith
  qed
qed

lemma rnd_le:
  assumes le: "r \<le> b" and rep: "representable b"
  shows "rnd r \<le> b"
proof (cases "0 < r")
  case True
  then show ?thesis using rnd_le_pos le rep by blast
next
  case False
  then have "0 \<le> - r" by simp
  then have n: "rnd r \<le> 0" using rnd_nonneg[of "- r"] by (simp add: rnd_minus)
  show ?thesis
  proof (cases "0 \<le> b")
    case True
    then show ?thesis using n by linarith
  next
    case False
    then have "0 < - b" "- b \<le> - r" using le by simp_all
    then have "- b \<le> rnd (- r)" using rnd_ge_pos representable_minus[OF rep] by blast
    then show ?thesis by (simp add: rnd_minus)
  qed
qed

lemma rnd_ge:
  assumes le: "b \<le> r" and rep: "representable b"
  shows "b \<le> rnd r"
proof -
  have "rnd (- r) \<le> - b" using le representable_minus[OF rep] by (intro rnd_le) simp_all
  then show ?thesis by (simp add: rnd_minus)
qed

subsection \<open>The rounding of the code against the rounding of reals\<close>

lemma floor_log2_int:
  assumes "0 < M"
  shows "\<lfloor>log 2 (of_int M * 2 powi E)\<rfloor> = bitlen M - 1 + E"
proof -
  have b1: "1 \<le> bitlen M" using assms by (simp add: bitlen_alt_def)
  from bitlen_bounds[OF assms] have lo: "2 ^ nat (bitlen M - 1) \<le> M" and hi: "M < 2 ^ nat (bitlen M)"
    by simp_all
  have "(2::real) powi (bitlen M - 1) = of_int (2 ^ nat (bitlen M - 1))"
    using b1 by (simp add: power_int_nonneg_exp)
  also have "\<dots> \<le> of_int M" using lo by (simp only: of_int_le_iff)
  finally have lo': "(2::real) powi (bitlen M - 1) \<le> of_int M" .
  have "of_int M < (of_int (2 ^ nat (bitlen M)) :: real)" using hi by (simp only: of_int_less_iff)
  also have "\<dots> = 2 powi (bitlen M)" using b1 by (simp add: power_int_nonneg_exp)
  finally have hi': "of_int M < (2::real) powi (bitlen M)" .
  have p: "0 < of_int M * (2::real) powi E" using assms by simp
  have "2 powi (bitlen M - 1 + E) \<le> of_int M * (2::real) powi E"
    unfolding p2_add using lo' by (intro mult_right_mono) simp_all
  moreover have "of_int M * (2::real) powi E < 2 powi (bitlen M - 1 + E + 1)"
    using hi' by (simp add: p2_add)
  ultimately show ?thesis using floor_log2_eq[OF p, of "bitlen M - 1 + E"] by simp
qed

lemma ulp_exp_int:
  assumes "0 < M"
  shows "ulp_exp (of_int M * 2 powi E) = max (E + bitlen M - 24) (- 149)"
proof -
  have "\<bar>of_int M * (2::real) powi E\<bar> = of_int M * 2 powi E" using assms by (simp add: abs_mult)
  then show ?thesis using floor_log2_int[OF assms, of E] by (simp add: ulp_exp_def algebra_simps)
qed

lemma rhe_scaled_bounds:
  assumes "r \<noteq> 0"
  shows "\<bar>round_half_even (r * 2 powi (- ulp_exp r))\<bar> \<le> 2 ^ 24"
proof -
  define x where "x = r * 2 powi (- ulp_exp r)"
  have "\<bar>x\<bar> = \<bar>r\<bar> * 2 powi (- ulp_exp r)" by (simp add: x_def abs_mult)
  also have "\<dots> < 2 powi (ulp_exp r + 24) * 2 powi (- ulp_exp r)"
    using ulp_exp_upper[OF assms] by (intro mult_strict_right_mono) simp_all
  also have "\<dots> = 2 ^ 24" by (simp flip: p2_add)
  finally have "\<bar>x\<bar> < 2 ^ 24" .
  then have "x \<le> of_int (2 ^ 24)" "of_int (- (2 ^ 24)) \<le> x" by simp_all
  then have "round_half_even x \<le> 2 ^ 24" "- (2 ^ 24) \<le> round_half_even x"
    using rhe_le_int rhe_ge_int by blast+
  then show ?thesis unfolding x_def by simp
qed

lemma rhe_scaled_lower:
  assumes "0 < r" "- 149 < ulp_exp r"
  shows "2 ^ 23 \<le> round_half_even (r * 2 powi (- ulp_exp r))"
proof -
  have "2 powi (ulp_exp r + 23) \<le> \<bar>r\<bar>" using ulp_exp_lower[of r] assms by simp
  then have "2 powi (ulp_exp r + 23) \<le> r" using assms by simp
  then have "2 powi (ulp_exp r + 23) * 2 powi (- ulp_exp r) \<le> r * 2 powi (- ulp_exp r)"
    using assms by (intro mult_right_mono) simp_all
  then have "of_int (2 ^ 23) \<le> r * 2 powi (- ulp_exp r)" by (simp flip: p2_add)
  then show ?thesis by (rule rhe_ge_int)
qed

text \<open>The significand and exponent that round_f32 computes, against rnd.\<close>

lemma round_core:
  fixes M E :: int
  assumes "0 < M"
  defines "e \<equiv> max (E + bitlen M - 24) (- 149)"
  defines "m \<equiv> rne_shift M (e - E)"
  shows "of_int m * 2 powi e = rnd (of_int M * 2 powi E)"
    and "0 \<le> m" and "m \<le> 2 ^ 24" and "- 149 < e \<Longrightarrow> 2 ^ 23 \<le> m"
proof -
  define r :: real where "r = of_int M * 2 powi E"
  have rp: "0 < r" using assms(1) by (simp add: r_def)
  have u: "ulp_exp r = e" unfolding r_def e_def by (rule ulp_exp_int[OF assms(1)])
  have "of_int M * (2::real) powi (- (e - E)) = r * 2 powi (- e)"
    by (simp add: r_def power_int_diff power_int_minus field_simps)
  then have m: "m = round_half_even (r * 2 powi (- ulp_exp r))"
    unfolding m_def u using rne_shift_rhe[of M "e - E"] assms(1) by simp
  show "of_int m * 2 powi e = rnd (of_int M * 2 powi E)"
    unfolding rnd_def r_def[symmetric] m u ..
  have "of_int 0 \<le> r * 2 powi (- ulp_exp r)" using rp by simp
  then show "0 \<le> m" unfolding m by (rule rhe_ge_int)
  show "m \<le> 2 ^ 24" unfolding m using rhe_scaled_bounds[of r] rp by simp
  show "2 ^ 23 \<le> m" if "- 149 < e"
    unfolding m using rhe_scaled_lower[OF rp] that u by simp
qed

lemma rne_shift_0 [simp]: "rne_shift 0 k = 0"
  by (simp add: rne_shift_def)

lemma round_f32_valid: "0 \<le> M \<Longrightarrow> valid (round_f32 s M E)"
proof (cases "M = 0")
  case True
  then show ?thesis by (simp add: round_f32_def)
next
  case False
  assume "0 \<le> M"
  then have M: "0 < M" using False by simp
  note c = round_core[OF M, of E]
  show ?thesis
    unfolding round_f32_def Let_def using c(2,3,4) by (auto simp: max_def)
qed

lemma round_f32_val:
  assumes "0 \<le> M" and "is_finite (round_f32 s M E)"
  shows "valof (round_f32 s M E) = (if s then - 1 else 1) * rnd (of_int M * 2 powi E)"
proof (cases "M = 0")
  case True
  then show ?thesis by (simp add: round_f32_def)
next
  case False
  then have M: "0 < M" using assms by simp
  note c = round_core[OF M, of E]
  define e where "e = max (E + bitlen M - 24) (- 149)"
  define m where "m = rne_shift M (e - E)"
  have v: "of_int m * 2 powi e = rnd (of_int M * 2 powi E)" using c(1) by (simp add: e_def m_def)
  have c24: "m = 2 ^ 24 \<Longrightarrow> 2 ^ 23 * 2 powi (e + 1) = rnd (of_int M * 2 powi E)"
    using v by (simp add: p2_add)
  have c0: "m = 0 \<Longrightarrow> rnd (of_int M * 2 powi E) = 0" using v by simp
  show ?thesis
    using assms(2) unfolding round_f32_def Let_def e_def[symmetric] m_def[symmetric]
    using v c24 c0 by (auto split: if_splits)
qed

lemma round_f32_finite:
  assumes "0 \<le> M" and "of_int M * 2 powi E < (2::real) powi 127"
  shows "is_finite (round_f32 s M E)"
proof (cases "M = 0")
  case True
  then show ?thesis by (simp add: round_f32_def)
next
  case False
  then have M: "0 < M" using assms by simp
  have p: "0 < of_int M * (2::real) powi E" using M by simp
  have "\<lfloor>log 2 (of_int M * 2 powi E)\<rfloor> < 127" using floor_log2_less[OF p assms(2)] .
  then have "bitlen M + E \<le> 127" using floor_log2_int[OF M, of E] by simp
  then show ?thesis unfolding round_f32_def Let_def by (auto simp: max_def)
qed

subsection \<open>The operations on values\<close>

lemma scaled_val: "E \<le> e \<Longrightarrow> of_int (scaled E s m e) * 2 powi E = valof (Fin s m e)"
proof -
  assume "E \<le> e"
  then have "(of_int (2 ^ nat (e - E)) :: real) * 2 powi E = 2 powi e"
    by (simp add: power_int_nonneg_exp[symmetric] flip: p2_add)
  then show ?thesis by (simp add: scaled_def mult.assoc)
qed

lemma is_finite_fneg [simp]: "is_finite (fneg_v a) = is_finite a"
  by (cases a) simp_all

lemma valof_fneg [simp]: "valof (fneg_v a) = - valof a"
  by (cases a) simp_all

lemma valid_fneg [simp]: "valid (fneg_v a) = valid a"
  by (cases a) simp_all

lemma fadd_v_fin: "is_finite (fadd_v a b) \<Longrightarrow> is_finite a \<and> is_finite b"
  by (cases a; cases b) (simp_all split: if_splits)

lemma fadd_v_valid: "valid (fadd_v a b)"
  by (cases a; cases b) (simp_all add: Let_def round_f32_valid)

lemma round_abs_val:
  assumes "is_finite (round_f32 (S < 0) \<bar>S\<bar> E)"
  shows "valof (round_f32 (S < 0) \<bar>S\<bar> E) = rnd (of_int S * 2 powi E)"
proof -
  have "valof (round_f32 (S < 0) \<bar>S\<bar> E) = (if S < 0 then - 1 else 1) * rnd (of_int \<bar>S\<bar> * 2 powi E)"
    using assms by (intro round_f32_val) simp_all
  also have "\<dots> = rnd (of_int S * 2 powi E)"
    by (cases "S < 0") (simp_all add: rnd_minus[symmetric])
  finally show ?thesis .
qed

lemma fadd_v_val:
  assumes "is_finite (fadd_v a b)"
  shows "valof (fadd_v a b) = rnd (valof a + valof b)"
proof -
  from fadd_v_fin[OF assms] obtain s1 m1 e1 s2 m2 e2 where a: "a = Fin s1 m1 e1" and b: "b = Fin s2 m2 e2"
    by (cases a; cases b) simp_all
  define E where "E = min e1 e2"
  define S where "S = scaled E s1 m1 e1 + scaled E s2 m2 e2"
  have sv: "of_int S * 2 powi E = valof a + valof b"
    unfolding S_def a b using scaled_val[of E e1 s1 m1] scaled_val[of E e2 s2 m2]
    by (simp add: E_def algebra_simps)
  show ?thesis
  proof (cases "S = 0")
    case True
    then have "valof a + valof b = 0" using sv by simp
    then show ?thesis using True by (simp add: a b Let_def E_def S_def)
  next
    case False
    then have r: "fadd_v a b = round_f32 (S < 0) \<bar>S\<bar> E" by (simp add: a b Let_def E_def S_def)
    show ?thesis using assms round_abs_val[of S E] unfolding r sv by simp
  qed
qed

lemma round_abs_finite:
  assumes "\<bar>of_int S * 2 powi E\<bar> < (2::real) powi 127"
  shows "is_finite (round_f32 (S < 0) \<bar>S\<bar> E)"
proof -
  have "of_int \<bar>S\<bar> * 2 powi E = \<bar>of_int S * (2::real) powi E\<bar>" by (simp add: abs_mult)
  then show ?thesis using assms by (intro round_f32_finite) simp_all
qed

lemma fadd_v_finite:
  assumes "is_finite a" "is_finite b" "\<bar>valof a + valof b\<bar> < 2 powi 127"
  shows "is_finite (fadd_v a b)"
proof -
  from assms obtain s1 m1 e1 s2 m2 e2 where a: "a = Fin s1 m1 e1" and b: "b = Fin s2 m2 e2"
    by (cases a; cases b) simp_all
  define E where "E = min e1 e2"
  define S where "S = scaled E s1 m1 e1 + scaled E s2 m2 e2"
  have sv: "of_int S * 2 powi E = valof a + valof b"
    unfolding S_def a b using scaled_val[of E e1 s1 m1] scaled_val[of E e2 s2 m2]
    by (simp add: E_def algebra_simps)
  have "is_finite (round_f32 (S < 0) \<bar>S\<bar> E)"
    using assms(3) unfolding sv[symmetric] by (rule round_abs_finite)
  then show ?thesis by (simp add: a b Let_def E_def S_def)
qed

lemma fsub_v_valid: "valid (fsub_v a b)"
  by (simp add: fsub_v_def fadd_v_valid)

lemma fsub_v_val: "is_finite (fsub_v a b) \<Longrightarrow> valof (fsub_v a b) = rnd (valof a - valof b)"
  using fadd_v_val[of a "fneg_v b"] by (simp add: fsub_v_def)

lemma fsub_v_finite:
  "is_finite a \<Longrightarrow> is_finite b \<Longrightarrow> \<bar>valof a - valof b\<bar> < 2 powi 127 \<Longrightarrow> is_finite (fsub_v a b)"
  using fadd_v_finite[of a "fneg_v b"] by (simp add: fsub_v_def)

lemma fsub_v_fin: "is_finite (fsub_v a b) \<Longrightarrow> is_finite a \<and> is_finite b"
  using fadd_v_fin[of a "fneg_v b"] by (simp add: fsub_v_def)

lemma fmul_v_fin: "is_finite (fmul_v a b) \<Longrightarrow> is_finite a \<and> is_finite b"
  by (cases a; cases b) (simp_all split: if_splits)

lemma fmul_v_valid: "valid a \<Longrightarrow> valid b \<Longrightarrow> valid (fmul_v a b)"
  by (cases a; cases b) (simp_all add: round_f32_valid)

lemma fmul_v_val:
  assumes "valid a" "valid b" "is_finite (fmul_v a b)"
  shows "valof (fmul_v a b) = rnd (valof a * valof b)"
proof -
  from fmul_v_fin[OF assms(3)] obtain s1 m1 e1 s2 m2 e2 where a: "a = Fin s1 m1 e1" and b: "b = Fin s2 m2 e2"
    by (cases a; cases b) simp_all
  have nn: "0 \<le> m1 * m2" using assms(1,2) by (simp add: a b)
  have "valof (fmul_v a b) = (if s1 \<noteq> s2 then - 1 else 1) * rnd (of_int (m1 * m2) * 2 powi (e1 + e2))"
    using assms(3) unfolding a b fmul_v.simps by (intro round_f32_val[OF nn])
  also have "\<dots> = rnd (valof a * valof b)"
    by (cases s1; cases s2) (simp_all add: a b p2_add rnd_minus[symmetric] algebra_simps)
  finally show ?thesis .
qed

lemma fmul_v_finite:
  assumes "valid a" "valid b" "is_finite a" "is_finite b" "\<bar>valof a * valof b\<bar> < 2 powi 127"
  shows "is_finite (fmul_v a b)"
proof -
  from assms obtain s1 m1 e1 s2 m2 e2 where a: "a = Fin s1 m1 e1" and b: "b = Fin s2 m2 e2"
    by (cases a; cases b) simp_all
  have nn: "0 \<le> m1 * m2" using assms(1,2) by (simp add: a b)
  have m: "0 \<le> m1" "0 \<le> m2" using assms(1,2) by (simp_all add: a b)
  have "\<bar>valof a * valof b\<bar> = of_int (m1 * m2) * 2 powi (e1 + e2)"
    using m by (simp add: a b abs_mult p2_add)
  then show ?thesis using assms(5) unfolding a b fmul_v.simps by (intro round_f32_finite[OF nn]) simp
qed

lemma flt_v_iff: "is_finite a \<Longrightarrow> is_finite b \<Longrightarrow> flt_v a b = (valof a < valof b)"
proof -
  assume "is_finite a" "is_finite b"
  then obtain s1 m1 e1 s2 m2 e2 where a: "a = Fin s1 m1 e1" and b: "b = Fin s2 m2 e2"
    by (cases a; cases b) simp_all
  define E where "E = min e1 e2"
  have "(scaled E s1 m1 e1 < scaled E s2 m2 e2)
      = (of_int (scaled E s1 m1 e1) * (2::real) powi E < of_int (scaled E s2 m2 e2) * 2 powi E)"
    using mult_less_cancel_right_pos[of "(2::real) powi E" "of_int (scaled E s1 m1 e1)" "of_int (scaled E s2 m2 e2)"]
    by simp
  also have "\<dots> = (valof a < valof b)"
    unfolding a b using scaled_val[of E e1 s1 m1] scaled_val[of E e2 s2 m2] by (simp add: E_def)
  finally show ?thesis by (simp add: a b Let_def E_def)
qed

lemma feq_v_iff: "is_finite a \<Longrightarrow> is_finite b \<Longrightarrow> feq_v a b = (valof a = valof b)"
proof -
  assume "is_finite a" "is_finite b"
  then obtain s1 m1 e1 s2 m2 e2 where a: "a = Fin s1 m1 e1" and b: "b = Fin s2 m2 e2"
    by (cases a; cases b) simp_all
  define E where "E = min e1 e2"
  have "(scaled E s1 m1 e1 = scaled E s2 m2 e2)
      = (of_int (scaled E s1 m1 e1) * (2::real) powi E = of_int (scaled E s2 m2 e2) * 2 powi E)"
    by simp
  also have "\<dots> = (valof a = valof b)"
    unfolding a b using scaled_val[of E e1 s1 m1] scaled_val[of E e2 s2 m2] by (simp add: E_def)
  finally show ?thesis by (simp add: a b Let_def E_def)
qed

subsection \<open>Bit patterns\<close>

lemma divmod_lin:
  fixes k c r :: int
  assumes "0 \<le> r" "r < c"
  shows "(k * c + r) div c = k" "(k * c + r) mod c = r"
  using assms by (simp_all add: div_pos_pos_trivial mod_pos_pos_trivial)

lemma uint_bounds32: "0 \<le> uint (w :: 32 word)" "uint (w :: 32 word) < 4294967296"
  using uint_lt2p[of w] by simp_all

lemma valid_decode: "valid (decode w)"
proof -
  define n where "n = uint w"
  have n: "0 \<le> n" "n < 4294967296" using uint_bounds32[of w] by (simp_all add: n_def)
  have F: "0 \<le> n mod 8388608" "n mod 8388608 < 8388608" by simp_all
  have E: "0 \<le> n div 8388608 mod 256" "n div 8388608 mod 256 < 256" by simp_all
  show ?thesis
    unfolding decode_def Let_def n_def[symmetric] using F E by auto
qed

lemma uint_and_abs: "uint ((w :: 32 word) AND 0x7FFFFFFF) = uint w mod 2 ^ 31"
proof -
  have "(0x7FFFFFFF :: 32 word) = mask 31" by (simp add: mask_eq_exp_minus_1)
  then have "w AND 0x7FFFFFFF = take_bit 31 w" by (simp only: take_bit_eq_mask)
  then have "uint (w AND 0x7FFFFFFF) = take_bit 31 (uint w)" by (simp only: unsigned_take_bit_eq)
  then show ?thesis by (simp only: take_bit_eq_mod)
qed

lemma decode_abs: "decode (w AND 0x7FFFFFFF) = fabs_v (decode w)"
proof -
  define n where "n = uint w"
  have n: "0 \<le> n" "n < 4294967296" using uint_bounds32[of w] by (simp_all add: n_def)
  have u: "uint (w AND 0x7FFFFFFF) = n mod 2147483648" using uint_and_abs[of w] by (simp add: n_def)
  have a: "(2147483648 \<le> n mod 2147483648) = False" by simp
  have b: "(n mod 2147483648) mod 8388608 = n mod 8388608"
    by (rule mod_mod_cancel) simp
  have c: "(n mod 2147483648) div 8388608 mod 256 = n div 8388608 mod 256"
  proof (cases "n < 2147483648")
    case True
    then show ?thesis using n by simp
  next
    case False
    then have "0 \<le> n - 2147483648" "n - 2147483648 < 2147483648" using n by simp_all
    from divmod_lin(2)[OF this, of 1] have m: "n mod 2147483648 = n - 2147483648" by simp
    have "(n - 2147483648) div 8388608 = n div 8388608 - 256" by simp
    then show ?thesis unfolding m by (simp add: mod_diff_eq)
  qed
  show ?thesis
    unfolding decode_def Let_def u n_def[symmetric] by (simp add: a b c)
qed

lemma decode_encode: "valid v \<Longrightarrow> decode (encode v) = v"
proof (cases v)
  case (Fin s m e)
  assume "valid v"
  then have v: "0 \<le> m" "m < 16777216" "- 149 \<le> e" "e \<le> 104" "e = - 149 \<or> 8388608 \<le> m"
    by (simp_all add: Fin)
  define X :: int where "X = (if s then 2 ^ 31 else 0) + (if m < 2 ^ 23 then m else (e + 150) * 2 ^ 23 + (m - 2 ^ 23))"
  have X: "0 \<le> X" "X < 4294967296" using v by (auto simp: X_def)
  have "encode v = word_of_int X" unfolding Fin encode.simps X_def ..
  then have u: "uint (encode v) = X"
    using X by (simp add: uint_word_of_int_eq take_bit_int_eq_self)
  show ?thesis
  proof (cases "m < 8388608")
    case True
    then have e: "e = - 149" using v by simp
    have X': "X = (if s then 256 else 0) * 8388608 + m" using True by (simp add: X_def)
    have r: "0 \<le> m" "m < 8388608" using v True by simp_all
    have "X div 8388608 = (if s then 256 else 0)" "X mod 8388608 = m"
      unfolding X' by (rule divmod_lin[OF r])+
    moreover have "(2147483648 \<le> X) = s" using True v by (auto simp: X_def)
    ultimately show ?thesis unfolding decode_def Let_def u by (simp add: Fin e)
  next
    case False
    have X': "X = ((if s then 256 else 0) + (e + 150)) * 8388608 + (m - 8388608)" using False by (simp add: X_def algebra_simps)
    have r: "0 \<le> m - 8388608" "m - 8388608 < 8388608" using v False by simp_all
    have "X div 8388608 = (if s then 256 else 0) + (e + 150)" "X mod 8388608 = m - 8388608"
      unfolding X' by (rule divmod_lin[OF r])+
    moreover have "(2147483648 \<le> X) = s" using False v by (auto simp: X_def)
    moreover have "((if s then 256 else 0) + (e + 150)) mod 256 = e + 150"
    proof -
      have r2: "0 \<le> e + 150" "e + 150 < 256" using v by simp_all
      have "(1 * 256 + (e + 150)) mod 256 = e + 150" "(0 * 256 + (e + 150)) mod 256 = e + 150"
        by (rule divmod_lin(2)[OF r2])+
      then show ?thesis by (cases s) (simp_all only: if_True if_False mult_1 mult_zero_left)
    qed
    ultimately show ?thesis unfolding decode_def Let_def u using v by (simp add: Fin)
  qed
next
  case (Inf s)
  then show ?thesis by (simp add: decode_def)
next
  case NaN
  then show ?thesis by (simp add: decode_def)
qed

subsection \<open>Conversions and the operations on bit patterns\<close>

lemma valof_fabs: "valid v \<Longrightarrow> valof (fabs_v v) = \<bar>valof v\<bar>"
  by (cases v) (simp_all add: abs_mult)

lemma is_finite_fabs [simp]: "is_finite (fabs_v v) = is_finite v"
  by (cases v) simp_all

lemma sint32_of_int: "- (2 ^ 31) \<le> n \<Longrightarrow> n < 2 ^ 31 \<Longrightarrow> sint (word_of_int n :: 32 word) = n"
  by (simp add: sint_sbintrunc' signed_take_bit_int_eq_self)

lemma int32_of_Some: "(int32_of n = Some k) = (k = n \<and> - (2 ^ 31) \<le> n \<and> n < 2 ^ 31)"
  by (auto simp: int32_of_def)

lemma int32_of_None: "(int32_of n = None) = (\<not> (- (2 ^ 31) \<le> n \<and> n < 2 ^ 31))"
  by (auto simp: int32_of_def)

lemma nearest_int_v_eq:
  assumes "valid v" "is_finite v"
  shows "nearest_int_v v = int32_of (round_half_even (valof v))"
proof -
  from assms obtain s m e where v: "v = Fin s m e" by (cases v) simp_all
  have m: "0 \<le> m" using assms by (simp add: v)
  have r: "rne_shift m (- e) = round_half_even (of_int m * 2 powi e)"
    using rne_shift_rhe[OF m, of "- e"] by simp
  show ?thesis
    by (cases s) (simp_all add: v r rhe_minus[symmetric])
qed

lemma trunc_mag:
  assumes "0 \<le> m"
  shows "(if 0 \<le> e then m * 2 ^ nat e else m div 2 ^ nat (- e)) = \<lfloor>of_int m * (2::real) powi e\<rfloor>"
proof (cases "0 \<le> e")
  case True
  then have "of_int m * (2::real) powi e = of_int (m * 2 ^ nat e)"
    by (simp add: power_int_nonneg_exp)
  then show ?thesis using True by (simp only: floor_of_int if_True)
next
  case False
  then have "of_int m * (2::real) powi e = of_int m / of_int (2 ^ nat (- e))"
    by (simp add: power_int_def power_one_over field_simps)
  then show ?thesis using False by (simp only: floor_divide_of_int_eq if_False)
qed

lemma trunc_int_v_eq:
  assumes "valid v" "is_finite v"
  shows "trunc_int_v v = int32_of (trunc_real (valof v))"
proof -
  from assms obtain s m e where v: "v = Fin s m e" by (cases v) simp_all
  have m: "0 \<le> m" using assms by (simp add: v)
  define x :: real where "x = of_int m * 2 powi e"
  have x: "0 \<le> x" using m by (simp add: x_def)
  have t: "(if 0 \<le> e then m * 2 ^ nat e else m div 2 ^ nat (- e)) = \<lfloor>x\<rfloor>"
    unfolding x_def by (rule trunc_mag[OF m])
  have "trunc_int_v v = int32_of ((if s then - 1 else 1) * \<lfloor>x\<rfloor>)"
    unfolding v trunc_int_v.simps t ..
  moreover have "(if s then - 1 else 1) * \<lfloor>x\<rfloor> = trunc_real (valof v)"
  proof (cases s)
    case True
    then have "valof v = - x" by (simp add: v x_def)
    then show ?thesis using True x by (cases "x = 0") (simp_all add: trunc_real_def ceiling_minus)
  next
    case False
    then have "valof v = x" by (simp add: v x_def)
    then show ?thesis using False x by (simp add: trunc_real_def)
  qed
  ultimately show ?thesis by simp
qed

lemma of_int_v_valid: "valid (of_int_v n)"
  by (simp add: of_int_v_def round_f32_valid)

lemma of_int_v_finite: "\<bar>n\<bar> \<le> 2 ^ 31 \<Longrightarrow> is_finite (of_int_v n)"
proof -
  assume "\<bar>n\<bar> \<le> 2 ^ 31"
  then have "(of_int \<bar>n\<bar> :: real) \<le> of_int (2 ^ 31)" by (simp only: of_int_le_iff)
  then have "of_int \<bar>n\<bar> * 2 powi 0 < (2::real) powi 127" by simp
  then show ?thesis unfolding of_int_v_def by (intro round_f32_finite) simp_all
qed

lemma of_int_v_val: "is_finite (of_int_v n) \<Longrightarrow> valof (of_int_v n) = rnd (of_int n)"
  using round_abs_val[of n 0] by (simp add: of_int_v_def)

lemma decode_sub: "decode (f32_sub a b) = fsub_v (decode a) (decode b)"
  by (simp add: f32_sub_def decode_encode fsub_v_valid)

lemma decode_mul: "decode (f32_mul a b) = fmul_v (decode a) (decode b)"
  by (simp add: f32_mul_def decode_encode fmul_v_valid valid_decode)

lemma decode_neg: "decode (f32_neg a) = fneg_v (decode a)"
  by (simp add: f32_neg_def decode_encode valid_decode)

lemma decode_cast_float: "decode (cast_float k) = of_int_v (sint k)"
  by (simp add: cast_float_def decode_encode of_int_v_valid)

lemma decode_lit: "0 \<le> M \<Longrightarrow> decode (f32_lit s M E) = round_f32 s M E"
  by (simp add: f32_lit_def decode_encode round_f32_valid)

lemma sub_fin: "finite32 (f32_sub a b) \<Longrightarrow> finite32 a \<and> finite32 b"
  unfolding finite32_def decode_sub by (rule fsub_v_fin)

lemma sub_val: "finite32 (f32_sub a b) \<Longrightarrow> val (f32_sub a b) = rnd (val a - val b)"
  unfolding finite32_def val_def decode_sub by (rule fsub_v_val)

lemma sub_finite:
  "finite32 a \<Longrightarrow> finite32 b \<Longrightarrow> \<bar>val a - val b\<bar> < 2 powi 127 \<Longrightarrow> finite32 (f32_sub a b)"
  unfolding finite32_def val_def decode_sub by (rule fsub_v_finite)

lemma mul_fin: "finite32 (f32_mul a b) \<Longrightarrow> finite32 a \<and> finite32 b"
  unfolding finite32_def decode_mul by (rule fmul_v_fin)

lemma mul_val: "finite32 (f32_mul a b) \<Longrightarrow> val (f32_mul a b) = rnd (val a * val b)"
  unfolding finite32_def val_def decode_mul by (rule fmul_v_val[OF valid_decode valid_decode])

lemma mul_finite:
  "finite32 a \<Longrightarrow> finite32 b \<Longrightarrow> \<bar>val a * val b\<bar> < 2 powi 127 \<Longrightarrow> finite32 (f32_mul a b)"
  unfolding finite32_def val_def decode_mul by (rule fmul_v_finite[OF valid_decode valid_decode])

lemma abs_finite [simp]: "finite32 (x AND 0x7FFFFFFF) = finite32 x"
  by (simp add: finite32_def decode_abs)

lemma abs_val [simp]: "val (x AND 0x7FFFFFFF) = \<bar>val x\<bar>"
  by (simp add: val_def decode_abs valof_fabs valid_decode)

lemma neg_finite [simp]: "finite32 (f32_neg x) = finite32 x"
  by (simp add: finite32_def decode_neg)

lemma neg_val [simp]: "val (f32_neg x) = - val x"
  by (simp add: val_def decode_neg)

lemma lt_iff: "finite32 a \<Longrightarrow> finite32 b \<Longrightarrow> f32_lt a b = (val a < val b)"
  unfolding finite32_def val_def f32_lt_def by (rule flt_v_iff)

lemma eq_iff: "finite32 a \<Longrightarrow> finite32 b \<Longrightarrow> f32_eq a b = (val a = val b)"
  unfolding finite32_def val_def f32_eq_def by (rule feq_v_iff)

lemma lit_8: "finite32 (f32_lit False 8 0)" "val (f32_lit False 8 0) = 8"
proof -
  have "decode (f32_lit False 8 0) = Fin False 8388608 (- 20)" by code_simp
  then show "finite32 (f32_lit False 8 0)" "val (f32_lit False 8 0) = 8"
    by (simp_all add: finite32_def val_def)
qed

lemma lit_16: "finite32 (f32_lit False 16 0)" "val (f32_lit False 16 0) = 16"
proof -
  have "decode (f32_lit False 16 0) = Fin False 8388608 (- 19)" by code_simp
  then show "finite32 (f32_lit False 16 0)" "val (f32_lit False 16 0) = 16"
    by (simp_all add: finite32_def val_def)
qed

lemma lit_half: "finite32 (f32_lit False 1 (- 1))" "val (f32_lit False 1 (- 1)) = 1 / 2"
proof -
  have "decode (f32_lit False 1 (- 1)) = Fin False 8388608 (- 24)" by code_simp
  then show "finite32 (f32_lit False 1 (- 1))" "val (f32_lit False 1 (- 1)) = 1 / 2"
    by (simp_all add: finite32_def val_def)
qed

lemma lit_mhalf: "finite32 (f32_lit True 1 (- 1))" "val (f32_lit True 1 (- 1)) = - (1 / 2)"
proof -
  have "decode (f32_lit True 1 (- 1)) = Fin True 8388608 (- 24)" by code_simp
  then show "finite32 (f32_lit True 1 (- 1))" "val (f32_lit True 1 (- 1)) = - (1 / 2)"
    by (simp_all add: finite32_def val_def)
qed

lemma cast_float_finite: "finite32 (cast_float k)"
proof -
  have "- (2 ^ 31) \<le> sint k" "sint k < 2 ^ 31"
    using sint_ge[of k] sint_lt[of k] by simp_all
  then have "\<bar>sint k\<bar> \<le> 2 ^ 31" by simp
  then show ?thesis unfolding finite32_def decode_cast_float by (rule of_int_v_finite)
qed

lemma cast_float_val: "val (cast_float k) = rnd (of_int (sint k))"
  using cast_float_finite[of k] unfolding finite32_def val_def decode_cast_float by (rule of_int_v_val)

lemma representable_val: "finite32 x \<Longrightarrow> representable (val x)"
proof -
  assume f: "finite32 x"
  then obtain s m e where d: "decode x = Fin s m e" unfolding finite32_def by (cases "decode x") simp_all
  have v: "valid (Fin s m e)" using valid_decode[of x] by (simp add: d)
  show ?thesis unfolding representable_def val_def d
    by (rule exI[of _ "(if s then - 1 else 1) * m"], rule exI[of _ e]) (use v in auto)
qed

subsection \<open>Numbers of the format and nearby integers\<close>

lemma representable_I: "\<bar>m\<bar> < 2 ^ 24 \<Longrightarrow> - 149 \<le> e \<Longrightarrow> representable (of_int m * 2 powi e)"
  unfolding representable_def by blast

lemma representable_int: "\<bar>n\<bar> < 2 ^ 24 \<Longrightarrow> representable (of_int n)"
  using representable_I[of n 0] by simp

lemma multiple_of:
  assumes "representable w" and "2 powi k \<le> \<bar>w\<bar>"
  shows "\<exists>z. w = of_int z * 2 powi (k - 23)"
proof -
  from assms(1) obtain m e where m: "\<bar>m\<bar> < 2 ^ 24" and e: "- 149 \<le> e" and w: "w = of_int m * 2 powi e"
    unfolding representable_def by blast
  have "\<bar>w\<bar> < 2 powi (e + 24)" unfolding w by (rule rep_lt[OF m])
  then have "(2::real) powi k < 2 powi (e + 24)" using assms(2) by linarith
  then have "k < e + 24" by (rule p2_less_cancel)
  then have "0 \<le> e - (k - 23)" by simp
  then obtain z :: int where z: "(2::real) powi (e - (k - 23)) = of_int z" using int_p2 by blast
  have "w = of_int m * (2 powi (e - (k - 23)) * 2 powi (k - 23))"
    unfolding w by (simp flip: p2_add)
  then have "w = of_int (m * z) * 2 powi (k - 23)" by (simp add: z)
  then show ?thesis by blast
qed

lemma rep_diff:
  assumes w: "representable w" and k: "2 powi k \<le> \<bar>w\<bar>" and j: "- 149 \<le> k - 23"
    and c: "c = of_int zc * 2 powi (k - 23)" and d: "\<bar>c - w\<bar> < 2 powi (k + 1)"
  shows "representable (c - w)"
proof -
  from multiple_of[OF w k] obtain z where z: "w = of_int z * 2 powi (k - 23)" by blast
  have e: "c - w = of_int (zc - z) * 2 powi (k - 23)" by (simp add: c z algebra_simps)
  have "\<bar>of_int (zc - z) :: real\<bar> * 2 powi (k - 23) < 2 ^ 24 * 2 powi (k - 23)"
    using d unfolding e by (simp add: abs_mult p2_add power_int_diff)
  then have "\<bar>of_int (zc - z) :: real\<bar> < of_int (2 ^ 24)" by simp
  then have "\<bar>zc - z\<bar> < 2 ^ 24" by (simp only: of_int_abs[symmetric] of_int_less_iff)
  then show ?thesis unfolding e using j by (rule representable_I)
qed

lemma int_multiple: "k - 23 \<le> 0 \<Longrightarrow> \<exists>z. (of_int n :: real) = of_int z * 2 powi (k - 23)"
proof -
  assume "k - 23 \<le> 0"
  then obtain y :: int where y: "(2::real) powi (23 - k) = of_int y" using int_p2[of "23 - k"] by auto
  have "(2::real) powi (23 - k) * 2 powi (k - 23) = 1" by (simp flip: p2_add)
  then have "of_int y * (2::real) powi (k - 23) = 1" by (simp only: y)
  then have "(of_int n :: real) = of_int n * (of_int y * 2 powi (k - 23))" by simp
  then have "(of_int n :: real) = of_int (n * y) * 2 powi (k - 23)" by (simp only: of_int_mult mult.assoc)
  then show ?thesis by blast
qed

text \<open>A number of the format minus a nearby integer is a number of the format.\<close>

lemma frac_representable:
  assumes w: "representable v" and k: "k \<le> 0" "- 126 \<le> k"
    and d: "\<bar>v - of_int n\<bar> < 2 powi (k + 1)" and z: "\<bar>v\<bar> < 2 powi k \<Longrightarrow> n = 0"
  shows "representable (v - of_int n)"
proof (cases "\<bar>v\<bar> < 2 powi k")
  case True
  then show ?thesis using z w by simp
next
  case False
  then have b: "2 powi k \<le> \<bar>v\<bar>" by simp
  obtain zc where zc: "(of_int n :: real) = of_int zc * 2 powi (k - 23)" using int_multiple[of k n] k by auto
  have "representable (of_int n - v)"
    using w b _ zc by (rule rep_diff) (use d k in simp_all)
  then show ?thesis using representable_minus by fastforce
qed

lemma big_is_int:
  assumes "representable v" "2 ^ 23 \<le> \<bar>v\<bar>"
  shows "\<exists>z. v = of_int z"
proof -
  have "2 powi 23 \<le> \<bar>v\<bar>" using assms(2) by simp
  from multiple_of[OF assms(1) this] show ?thesis by simp
qed


lemma near_int_rep:
  assumes "representable v" and "\<And>z. v = of_int z \<Longrightarrow> n = z" and "\<bar>v - of_int n\<bar> < 1"
  shows "representable (of_int n)"
proof (cases "2 ^ 23 \<le> \<bar>v\<bar>")
  case True
  from big_is_int[OF assms(1) True] obtain z where z: "v = of_int z" by blast
  then show ?thesis using assms(1,2) by simp
next
  case False
  then have "\<bar>of_int n :: real\<bar> < of_int (2 ^ 24)" using assms(3) by simp
  then have "\<bar>n\<bar> < 2 ^ 24" by (simp only: of_int_abs[symmetric] of_int_less_iff)
  then show ?thesis by (rule representable_int)
qed

lemma rhe_bounds': "\<bar>r - of_int (round_half_even r)\<bar> \<le> 1 / 2"
  using rhe_bounds[of r] by (simp only: abs_minus_commute)

lemma rhe_small: "\<bar>r\<bar> < 1 / 2 \<Longrightarrow> round_half_even r = 0"
  unfolding round_half_even_def Let_def by (auto simp: abs_less_iff; linarith)

lemma trunc_real_bounds: "\<bar>r - of_int (trunc_real r)\<bar> < 1"
  unfolding trunc_real_def by (auto simp: abs_less_iff; linarith)

lemma trunc_real_small: "\<bar>r\<bar> < 1 \<Longrightarrow> trunc_real r = 0"
  unfolding trunc_real_def by (auto simp: abs_less_iff; linarith)

lemma trunc_real_of_int [simp]: "trunc_real (of_int z) = z"
  unfolding trunc_real_def by simp

lemma trunc_real_minus: "trunc_real (- r) = - trunc_real r"
  unfolding trunc_real_def by (cases "r = 0") (simp_all add: ceiling_minus floor_minus)

lemma trunc_real_abs_le: "\<bar>of_int (trunc_real r)\<bar> \<le> \<bar>r\<bar>"
  unfolding trunc_real_def by (auto; linarith)

lemma sub_int_exact_rhe:
  assumes "representable v"
  shows "representable (v - of_int (round_half_even v))"
proof -
  have "\<bar>v - of_int (round_half_even v)\<bar> \<le> 1 / 2" by (rule rhe_bounds')
  then have "\<bar>v - of_int (round_half_even v)\<bar> < 2 powi (- 1 + 1)" by simp
  moreover have "\<bar>v\<bar> < 2 powi (- 1) \<Longrightarrow> round_half_even v = 0" using rhe_small[of v] by simp
  ultimately show ?thesis using assms by (intro frac_representable[of v "- 1"]) simp_all
qed

lemma sub_int_exact_trunc:
  assumes "representable v"
  shows "representable (v - of_int (trunc_real v))"
proof -
  have "\<bar>v - of_int (trunc_real v)\<bar> < 2 powi (0 + 1)" using trunc_real_bounds[of v] by simp
  moreover have "\<bar>v\<bar> < 2 powi 0 \<Longrightarrow> trunc_real v = 0" using trunc_real_small[of v] by simp
  ultimately show ?thesis using assms by (intro frac_representable[of v 0]) simp_all
qed

lemma rep_rhe: "representable v \<Longrightarrow> representable (of_int (round_half_even v))"
proof (rule near_int_rep)
  show "\<bar>v - of_int (round_half_even v)\<bar> < 1" using rhe_bounds'[of v] by linarith
qed simp_all

lemma rep_trunc: "representable v \<Longrightarrow> representable (of_int (trunc_real v))"
proof (rule near_int_rep)
  show "\<bar>v - of_int (trunc_real v)\<bar> < 1" using trunc_real_bounds[of v] by simp
qed simp_all

subsection \<open>The phase reduction of both versions\<close>

lemma val_nonzero_finite: "val x \<noteq> 0 \<Longrightarrow> finite32 x"
  unfolding val_def finite32_def by (cases "decode x") simp_all

lemma cvtps_in:
  assumes "finite32 x" "- (2 ^ 31) \<le> round_half_even (val x)" "round_half_even (val x) < 2 ^ 31"
  shows "sint (cvtps_epi32 x) = round_half_even (val x)"
proof -
  have "nearest_int_v (decode x) = Some (round_half_even (val x))"
    using assms nearest_int_v_eq[OF valid_decode, of x]
    by (simp add: finite32_def val_def int32_of_def)
  then show ?thesis using assms(2,3) by (simp add: cvtps_epi32_def sint32_of_int)
qed

lemma cvtps_out:
  assumes "\<not> (finite32 x \<and> - (2 ^ 31) \<le> round_half_even (val x) \<and> round_half_even (val x) < 2 ^ 31)"
  shows "cvtps_epi32 x = 0x80000000"
proof -
  have "nearest_int_v (decode x) = None"
  proof (cases "finite32 x")
    case True
    then show ?thesis using assms nearest_int_v_eq[OF valid_decode, of x]
      by (simp add: finite32_def val_def int32_of_def)
  next
    case False
    then show ?thesis unfolding finite32_def by (cases "decode x") simp_all
  qed
  then show ?thesis by (simp add: cvtps_epi32_def)
qed

lemma rhe_in_range:
  assumes "in_range x"
  shows "- (2 ^ 31) \<le> round_half_even (val x)" "round_half_even (val x) < 2 ^ 31"
proof -
  from assms have f: "finite32 x" and lo: "- (2 ^ 31) \<le> val x" and hi: "val x < 2 ^ 31"
    by (simp_all add: in_range_def)
  have "of_int (- (2 ^ 31)) \<le> val x" using lo by simp
  then show "- (2 ^ 31) \<le> round_half_even (val x)" by (rule rhe_ge_int)
  show "round_half_even (val x) < 2 ^ 31"
  proof (cases "2 ^ 23 \<le> \<bar>val x\<bar>")
    case True
    from big_is_int[OF representable_val[OF f] True] obtain z where z: "val x = of_int z" by blast
    then have "(of_int z :: real) < of_int (2 ^ 31)" using hi by simp
    then have "z < 2 ^ 31" by (simp only: of_int_less_iff)
    then show ?thesis by (simp add: z)
  next
    case False
    then have "val x \<le> of_int (2 ^ 23)" by simp
    then have "round_half_even (val x) \<le> 2 ^ 23" by (rule rhe_le_int)
    then show ?thesis by simp
  qed
qed

lemma sse_reduce_in_range:
  assumes "in_range x"
  shows "finite32 (sse_reduce_lane x)"
    and "val (sse_reduce_lane x) = val x - of_int (round_half_even (val x))"
proof -
  from assms have f: "finite32 x" by (simp add: in_range_def)
  define n where "n = round_half_even (val x)"
  note r = representable_val[OF f]
  have s: "sint (cvtps_epi32 x) = n"
    unfolding n_def using f rhe_in_range[OF assms] by (rule cvtps_in)
  have c: "val (cast_float (cvtps_epi32 x)) = of_int n"
    unfolding cast_float_val s n_def using rep_rhe[OF r] by (rule rnd_exact)
  have d: "\<bar>val x - of_int n\<bar> \<le> 1 / 2" unfolding n_def by (rule rhe_bounds')
  then have "\<bar>val x - val (cast_float (cvtps_epi32 x))\<bar> < 2 powi 127" unfolding c by simp
  with f cast_float_finite show fin: "finite32 (sse_reduce_lane x)"
    unfolding sse_reduce_lane_def by (rule sub_finite)
  have "val (sse_reduce_lane x) = rnd (val x - of_int n)"
    using sub_val[OF fin[unfolded sse_reduce_lane_def]] by (simp add: sse_reduce_lane_def c)
  also have "\<dots> = val x - of_int n"
    unfolding n_def using sub_int_exact_rhe[OF r] by (rule rnd_exact)
  finally show "val (sse_reduce_lane x) = val x - of_int (round_half_even (val x))"
    by (simp add: n_def)
qed

lemma cast_int_ok:
  assumes "finite32 x" "- (2 ^ 31) - 1 < val x" "val x < 2 ^ 31"
  shows "\<exists>k. cast_int x = Inr k \<and> sint k = trunc_real (val x)"
proof -
  have lo: "- (2 ^ 31) \<le> trunc_real (val x)"
    using assms(2) unfolding trunc_real_def by (auto; linarith)
  have hi: "trunc_real (val x) < 2 ^ 31"
    using assms(3) unfolding trunc_real_def by (auto; linarith)
  have "trunc_int_v (decode x) = Some (trunc_real (val x))"
    using assms(1) lo hi trunc_int_v_eq[OF valid_decode, of x]
    by (simp add: finite32_def val_def int32_of_def)
  then show ?thesis using lo hi by (simp add: cast_int_def sint32_of_int)
qed

lemma cast_int_fail:
  assumes "\<not> (finite32 x \<and> - (2 ^ 31) - 1 < val x \<and> val x < 2 ^ 31)"
  shows "cast_int x = Inl UndefinedConversion"
proof -
  have "trunc_int_v (decode x) = None"
  proof (cases "finite32 x")
    case True
    then have "\<not> (- (2 ^ 31) - 1 < val x \<and> val x < 2 ^ 31)" using assms by simp
    then have "\<not> (- (2 ^ 31) \<le> trunc_real (val x) \<and> trunc_real (val x) < 2 ^ 31)"
      unfolding trunc_real_def by (auto; linarith)
    then show ?thesis using True trunc_int_v_eq[OF valid_decode, of x]
      by (simp add: finite32_def val_def int32_of_def)
  next
    case False
    then show ?thesis unfolding finite32_def by (cases "decode x") simp_all
  qed
  then show ?thesis by (simp add: cast_int_def)
qed

lemma scalar_reduce_ok:
  assumes "finite32 x" "- (2 ^ 31) - 1 < val x" "val x < 2 ^ 31"
  shows "\<exists>y. scalar_reduce x = Inr y \<and> finite32 y \<and> val y = val x - of_int (trunc_real (val x))"
proof -
  from cast_int_ok[OF assms] obtain k where k: "cast_int x = Inr k" and s: "sint k = trunc_real (val x)"
    by blast
  define n where "n = trunc_real (val x)"
  note r = representable_val[OF assms(1)]
  have c: "val (cast_float k) = of_int n"
    unfolding cast_float_val s n_def using rep_trunc[OF r] by (rule rnd_exact)
  have d: "\<bar>val x - of_int n\<bar> < 1" unfolding n_def by (rule trunc_real_bounds)
  then have "\<bar>val x - val (cast_float k)\<bar> < 2 powi 127" unfolding c by simp
  with assms(1) cast_float_finite have fin: "finite32 (f32_sub x (cast_float k))"
    by (rule sub_finite)
  have "val (f32_sub x (cast_float k)) = rnd (val x - of_int n)"
    using sub_val[OF fin] by (simp add: c)
  also have "\<dots> = val x - of_int n"
    unfolding n_def using sub_int_exact_trunc[OF r] by (rule rnd_exact)
  finally show ?thesis using fin by (simp add: scalar_reduce_def k n_def)
qed

lemma scalar_reduce_fail:
  assumes "\<not> (finite32 x \<and> - (2 ^ 31) - 1 < val x \<and> val x < 2 ^ 31)"
  shows "scalar_reduce x = Inl UndefinedConversion"
  using cast_int_fail[OF assms] by (simp add: scalar_reduce_def)

subsection \<open>The shaping on real numbers\<close>

lemma representable_scale:
  assumes "representable r" "0 \<le> k"
  shows "representable (r * 2 powi k)"
proof -
  from assms(1) obtain m e where m: "\<bar>m\<bar> < 2 ^ 24" and e: "- 149 \<le> e" and r: "r = of_int m * 2 powi e"
    unfolding representable_def by blast
  have "r * 2 powi k = of_int m * 2 powi (e + k)" by (simp add: r p2_add)
  moreover have "- 149 \<le> e + k" using e assms(2) by simp
  ultimately show ?thesis using representable_I[OF m] by simp
qed

lemma representable_abs: "representable r \<Longrightarrow> representable \<bar>r\<bar>"
  using representable_minus[of r] by (cases "0 \<le> r") simp_all

lemma representable_16: "representable r \<Longrightarrow> representable (16 * r)"
  using representable_scale[of r 4] by (simp add: mult.commute)

lemma rep_consts:
  "representable 1" "representable 8" "representable 16" "representable (1 / 2)"
  "representable (1 / 4)" "representable (3 / 4)" "representable (2 ^ 31)" "representable (2 ^ 32)"
  using representable_I[of 1 0] representable_I[of 8 0] representable_I[of 16 0]
    representable_I[of 1 "- 1"] representable_I[of 1 "- 2"] representable_I[of 3 "- 2"]
    representable_I[of 1 31] representable_I[of 1 32]
  by simp_all

lemma rnd_abs: "\<bar>rnd r\<bar> = rnd \<bar>r\<bar>"
proof (cases "0 \<le> r")
  case True
  then show ?thesis using rnd_nonneg[of r] by simp
next
  case False
  then have "0 \<le> rnd (- r)" by (intro rnd_nonneg) simp
  then show ?thesis using False by (simp add: rnd_minus)
qed

lemma rhe_lt_half: "of_int z \<le> x \<Longrightarrow> x < of_int z + 1 / 2 \<Longrightarrow> round_half_even x = z"
proof -
  assume a: "of_int z \<le> x" "x < of_int z + 1 / 2"
  then have "\<lfloor>x\<rfloor> = z" by linarith
  then show ?thesis using a unfolding round_half_even_def Let_def by simp
qed

lemma rnd_le_one:
  assumes "0 \<le> r" "r < 1 + 2 powi (- 24)"
  shows "rnd r \<le> 1"
proof (cases "r \<le> 1")
  case True
  then show ?thesis using rep_consts(1) by (rule rnd_le)
next
  case False
  then have r1: "1 < r" by simp
  have r2: "r < 2" using assms(2) by (simp add: power_int_minus)
  have "\<lfloor>log 2 r\<rfloor> = 0" using floor_log2_eq[of r 0] r1 r2 by simp
  then have u: "ulp_exp r = - 23" using r1 by (simp add: ulp_exp_def)
  have "r * 2 powi 23 < (1 + 2 powi (- 24)) * 2 powi 23"
    using assms(2) by (intro mult_strict_right_mono) simp_all
  also have "\<dots> = of_int (2 ^ 23) + 1 / 2" by (simp add: power_int_minus algebra_simps)
  finally have hi: "r * 2 powi 23 < of_int (2 ^ 23) + 1 / 2" .
  have "1 * 2 powi 23 \<le> r * (2::real) powi 23" using r1 by (intro mult_right_mono) simp_all
  then have lo: "of_int (2 ^ 23) \<le> r * 2 powi 23" by simp
  have "round_half_even (r * 2 powi 23) = 2 ^ 23" using lo hi by (rule rhe_lt_half)
  then have "rnd r = 1" by (simp add: rnd_def u power_int_minus)
  then show ?thesis by simp
qed

lemma quad_le_one: "a * (8 - 16 * a) \<le> (1::real)"
proof -
  have "1 - a * (8 - 16 * a) = (4 * a - 1)\<^sup>2" by (simp add: power2_eq_square algebra_simps)
  then have "0 \<le> 1 - a * (8 - 16 * a)" by simp
  then show ?thesis by simp
qed

text \<open>The inner factor: exact above a quarter, within \<open>2^-22\<close> everywhere.\<close>

lemma inner_exact:
  assumes "representable a" "1 / 4 \<le> a" "a \<le> 1 / 2"
  shows "rnd (8 - 16 * a) = 8 - 16 * a"
proof -
  have "representable (8 - 16 * a)"
  proof (rule rep_diff[of "16 * a" 2 _ "2 ^ 24"])
    show "representable (16 * a)" using assms(1) by (rule representable_16)
    show "2 powi 2 \<le> \<bar>16 * a\<bar>" using assms(2) by simp
    show "\<bar>8 - 16 * a\<bar> < 2 powi (2 + 1)" using assms(2,3) by simp
  qed (simp_all add: power_int_minus)
  then show ?thesis by (rule rnd_exact)
qed

lemma inner_err:
  assumes "0 \<le> a" "a \<le> 1 / 2"
  shows "\<bar>rnd (8 - 16 * a) - (8 - 16 * a)\<bar> \<le> 2 powi (- 22)"
proof (cases "a = 0")
  case True
  then show ?thesis using rnd_exact[OF rep_consts(2)] by simp
next
  case False
  then have "\<bar>8 - 16 * a\<bar> < 2 powi 3" using assms by simp
  from rnd_err[OF this] show ?thesis by simp
qed

lemma inner_nonneg: "a \<le> 1 / 2 \<Longrightarrow> 0 \<le> rnd (8 - 16 * a)"
  by (rule rnd_nonneg) simp

lemma inner_le8: "0 \<le> a \<Longrightarrow> rnd (8 - 16 * a) \<le> 8"
  by (rule rnd_le[OF _ rep_consts(2)]) simp

lemma shape_real_rep: "representable w \<Longrightarrow> shape_real w = rnd (w * rnd (8 - 16 * \<bar>w\<bar>))"
  unfolding shape_real_def using rnd_exact[OF representable_16[OF representable_abs]] by simp

lemma shape_real_minus: "shape_real (- w) = - shape_real w"
  by (simp add: shape_real_def rnd_minus)

lemma shape_real_abs:
  assumes "representable w" "\<bar>w\<bar> \<le> 1 / 2"
  shows "\<bar>shape_real w\<bar> = rnd (\<bar>w\<bar> * rnd (8 - 16 * \<bar>w\<bar>))"
proof -
  define t where "t = rnd (8 - 16 * \<bar>w\<bar>)"
  have t: "0 \<le> t" unfolding t_def by (rule inner_nonneg[OF assms(2)])
  have "\<bar>rnd (w * t)\<bar> = rnd \<bar>w * t\<bar>" by (rule rnd_abs)
  also have "\<bar>w * t\<bar> = \<bar>w\<bar> * t" using t by (simp add: abs_mult)
  finally show ?thesis unfolding shape_real_rep[OF assms(1)] t_def .
qed

lemma shape_bound:
  assumes "representable w" "\<bar>w\<bar> \<le> 1 / 2"
  shows "\<bar>shape_real w\<bar> \<le> 1"
proof -
  define a where "a = \<bar>w\<bar>"
  define t where "t = rnd (8 - 16 * a)"
  have a: "0 \<le> a" "a \<le> 1 / 2" "representable a"
    using assms representable_abs by (simp_all add: a_def)
  have t0: "0 \<le> t" unfolding t_def using a(2) by (rule inner_nonneg)
  have "a * t < 1 + 2 powi (- 24)"
  proof (cases "1 / 4 \<le> a")
    case True
    then have "t = 8 - 16 * a" unfolding t_def using a by (intro inner_exact) simp_all
    then have "a * t \<le> 1" using quad_le_one[of a] by simp
    moreover have "0 < (2::real) powi (- 24)" by simp
    ultimately show ?thesis by linarith
  next
    case False
    have "t \<le> (8 - 16 * a) + 2 powi (- 22)"
      using inner_err[OF a(1,2)] unfolding t_def by linarith
    then have "a * t \<le> a * ((8 - 16 * a) + 2 powi (- 22))" using a(1) by (rule mult_left_mono)
    also have "\<dots> = a * (8 - 16 * a) + a * 2 powi (- 22)" by (simp add: algebra_simps)
    also have "\<dots> \<le> 1 + a * 2 powi (- 22)" using quad_le_one[of a] by simp
    also have "\<dots> < 1 + (1 / 4) * 2 powi (- 22)" using False by simp
    also have "\<dots> = 1 + 2 powi (- 24)" by (simp add: power_int_minus)
    finally show ?thesis .
  qed
  moreover have "0 \<le> a * t" using a(1) t0 by simp
  ultimately have "rnd (a * t) \<le> 1" by (intro rnd_le_one)
  then show ?thesis using shape_real_abs[OF assms] by (simp add: a_def t_def)
qed

lemma shape_error:
  assumes "representable w" "\<bar>w\<bar> \<le> 1 / 2"
  shows "\<bar>shape_real w - shape_exact w\<bar> \<le> 3 / 2 ^ 24"
proof -
  define a where "a = \<bar>w\<bar>"
  define t where "t = rnd (8 - 16 * a)"
  have a: "0 \<le> a" "a \<le> 1 / 2" using assms by (simp_all add: a_def)
  have e1: "\<bar>t - (8 - 16 * a)\<bar> \<le> 2 powi (- 22)" unfolding t_def by (rule inner_err[OF a])
  have "w * t - shape_exact w = w * (t - (8 - 16 * a))"
    by (simp add: shape_exact_def a_def algebra_simps)
  then have "\<bar>w * t - shape_exact w\<bar> = a * \<bar>t - (8 - 16 * a)\<bar>" by (simp add: abs_mult a_def)
  also have "\<dots> \<le> (1 / 2) * 2 powi (- 22)"
    using a e1 by (intro mult_mono) simp_all
  finally have e2: "\<bar>w * t - shape_exact w\<bar> \<le> 1 / 2 ^ 23" by (simp add: power_int_minus)
  have "\<bar>shape_exact w\<bar> = a * (8 - 16 * a)" using a by (simp add: shape_exact_def abs_mult a_def)
  then have "\<bar>shape_exact w\<bar> \<le> 1" using quad_le_one[of a] by simp
  then have "\<bar>w * t\<bar> \<le> 1 + 1 / 2 ^ 23" using e2 by linarith
  then have "\<bar>w * t\<bar> < 2 powi 1" by simp
  from rnd_err[OF this] have e3: "\<bar>rnd (w * t) - w * t\<bar> \<le> 1 / 2 ^ 24" by (simp add: power_int_minus)
  have sr: "shape_real w = rnd (w * t)" by (simp add: shape_real_rep[OF assms(1)] t_def a_def)
  have "(1::real) / 2 ^ 23 + 1 / 2 ^ 24 = 3 / 2 ^ 24" by simp
  then show ?thesis unfolding sr using e2 e3 by linarith
qed

lemma shape_real_half: "shape_real (1 / 2) = 0" "shape_real (- (1 / 2)) = 0"
proof -
  have "shape_real (1 / 2) = rnd (1 / 2 * rnd (8 - 16 * \<bar>1 / 2\<bar>))"
    using rep_consts(4) by (rule shape_real_rep)
  then show "shape_real (1 / 2) = 0" by simp
  then show "shape_real (- (1 / 2)) = 0" using shape_real_minus[of "1 / 2"] by simp
qed

lemma shape_sym:
  assumes "representable a" "representable b" "0 \<le> a" "0 \<le> b" "a + b = 1 / 2"
  shows "shape_real a = shape_real b"
proof -
  have ea: "8 - 16 * \<bar>a\<bar> = 16 * b" and eb: "8 - 16 * \<bar>b\<bar> = 16 * a" using assms(3,4,5) by simp_all
  have "shape_real a = rnd (a * (16 * b))"
    unfolding shape_real_rep[OF assms(1)] ea using rnd_exact[OF representable_16[OF assms(2)]] by simp
  moreover have "shape_real b = rnd (b * (16 * a))"
    unfolding shape_real_rep[OF assms(2)] eb using rnd_exact[OF representable_16[OF assms(1)]] by simp
  ultimately show ?thesis by (simp add: mult.commute mult.left_commute)
qed

subsection \<open>The shaping and the folds on bit patterns\<close>

lemma scalar_shape_eq: "scalar_shape x = sse_shape_lane x"
  by (simp add: scalar_shape_def sse_shape_lane_def fabsf_def)

lemma shape_val:
  assumes f: "finite32 u" and b: "\<bar>val u\<bar> \<le> 1"
  shows "finite32 (sse_shape_lane u)" and "val (sse_shape_lane u) = shape_real (val u)"
proof -
  define w where "w = val u"
  define p where "p = f32_mul (f32_lit False 16 0) (u AND 0x7FFFFFFF)"
  define q where "q = f32_sub (f32_lit False 8 0) p"
  have "\<bar>val (f32_lit False 16 0) * val (u AND 0x7FFFFFFF)\<bar> < 2 powi 127"
    using b by (simp add: lit_16 abs_mult)
  then have pf: "finite32 p" unfolding p_def using lit_16(1) f by (intro mul_finite) simp_all
  have pv: "val p = rnd (16 * \<bar>w\<bar>)" using mul_val[OF pf[unfolded p_def]] by (simp add: p_def lit_16 w_def)
  have p0: "0 \<le> val p" unfolding pv by (rule rnd_nonneg) simp
  have p16: "val p \<le> 16" unfolding pv using b by (intro rnd_le[OF _ rep_consts(3)]) (simp add: w_def)
  have "\<bar>val (f32_lit False 8 0) - val p\<bar> < 2 powi 127" using p0 p16 by (simp add: lit_8)
  then have qf: "finite32 q" unfolding q_def using lit_8(1) pf by (intro sub_finite) simp_all
  have qv: "val q = rnd (8 - val p)" using sub_val[OF qf[unfolded q_def]] by (simp add: q_def lit_8)
  have "8 - val p \<le> 8" using p0 by simp
  then have q8: "val q \<le> 8" unfolding qv by (rule rnd_le[OF _ rep_consts(2)])
  have "- 8 \<le> 8 - val p" using p16 by simp
  then have qm8: "- 8 \<le> val q" unfolding qv by (rule rnd_ge[OF _ representable_minus[OF rep_consts(2)]])
  have "\<bar>val q\<bar> \<le> 8" using q8 qm8 by simp
  then have "\<bar>val u\<bar> * \<bar>val q\<bar> \<le> 1 * 8" using b by (intro mult_mono) simp_all
  then have "\<bar>val u * val q\<bar> < 2 powi 127" by (simp add: abs_mult)
  with f qf have rf: "finite32 (f32_mul u q)" by (rule mul_finite)
  then show "finite32 (sse_shape_lane u)" by (simp add: sse_shape_lane_def q_def p_def)
  have "val (f32_mul u q) = rnd (w * rnd (8 - rnd (16 * \<bar>w\<bar>)))"
    using mul_val[OF rf] by (simp add: qv pv w_def)
  then show "val (sse_shape_lane u) = shape_real (val u)"
    by (simp add: sse_shape_lane_def q_def p_def shape_real_def w_def)
qed

lemma half_minus_rep:
  assumes "representable w" "1 / 4 < w" "w < 1"
  shows "representable (1 / 2 - w)"
proof (rule rep_diff[of w "- 2" _ "2 ^ 24"])
  show "representable w" by (rule assms(1))
  show "2 powi (- 2) \<le> \<bar>w\<bar>" using assms(2) by (simp add: power_int_minus)
  have "(2::real) powi (- 2 + 1) = 1 / 2" by (simp add: power_int_minus)
  then show "\<bar>1 / 2 - w\<bar> < 2 powi (- 2 + 1)" using assms(2,3) by linarith
qed (simp_all add: power_int_minus)

lemma fold_val:
  assumes f: "finite32 y" and b: "\<bar>val y\<bar> < 1"
  shows "finite32 (scalar_fold y)" and "val (scalar_fold y) = fold_real (val y)"
proof -
  define w where "w = val y"
  define t1 where "t1 = f32_sub (f32_lit False 1 (- 1)) y"
  define t2 where "t2 = f32_sub (f32_lit True 1 (- 1)) y"
  note r = representable_val[OF f, folded w_def]
  have w: "- 1 < w" "w < 1" using b by (simp_all add: w_def abs_less_iff)
  have "\<bar>val (f32_lit False 1 (- 1)) - val y\<bar> < 2 powi 127" using b by (simp add: lit_half)
  then have f1: "finite32 t1" unfolding t1_def using lit_half(1) f by (intro sub_finite) simp_all
  have "\<bar>val (f32_lit True 1 (- 1)) - val y\<bar> < 2 powi 127" using b by (simp add: lit_mhalf)
  then have f2: "finite32 t2" unfolding t2_def using lit_mhalf(1) f by (intro sub_finite) simp_all
  have v1: "val t1 = rnd (1 / 2 - w)" using sub_val[OF f1[unfolded t1_def]] by (simp add: t1_def lit_half w_def)
  have v2: "val t2 = rnd (- (1 / 2) - w)" using sub_val[OF f2[unfolded t2_def]] by (simp add: t2_def lit_mhalf w_def)
  define x1 where "x1 = (if f32_lt t1 y then t1 else y)"
  have sf: "scalar_fold y = (if f32_lt x1 t2 then t2 else x1)"
    by (simp add: scalar_fold_def Let_def x1_def t1_def t2_def)
  have c1: "f32_lt t1 y = (val t1 < w)" using lt_iff[OF f1 f] by (simp add: w_def)
  have fx1: "finite32 x1" using f1 f by (simp add: x1_def)
  have c2: "f32_lt x1 t2 = (val x1 < val t2)" by (rule lt_iff[OF fx1 f2])
  show "finite32 (scalar_fold y)" unfolding sf using fx1 f2 by simp
  have "val (scalar_fold y) = fold_real w"
  proof (cases "1 / 4 < w")
    case True
    have e1: "val t1 = 1 / 2 - w" unfolding v1 using half_minus_rep[OF r True w(2)] by (rule rnd_exact)
    then have x1: "x1 = t1" using True by (simp add: x1_def c1)
    have "- (1 / 2) - w \<le> - (3 / 4)" using True by simp
    then have "val t2 \<le> - (3 / 4)" unfolding v2 by (rule rnd_le[OF _ representable_minus[OF rep_consts(6)]])
    then have "\<not> val x1 < val t2" using w(2) by (simp add: x1 e1)
    then have n2: "f32_lt x1 t2 = False" by (simp add: c2)
    show ?thesis unfolding sf n2 using True by (simp add: x1 e1 fold_real_def)
  next
    case False
    then have "1 / 4 \<le> 1 / 2 - w" by simp
    then have "1 / 4 \<le> val t1" unfolding v1 by (rule rnd_ge[OF _ rep_consts(5)])
    then have x1: "x1 = y" using False by (simp add: x1_def c1)
    show ?thesis
    proof (cases "w < - (1 / 4)")
      case True
      have "representable (1 / 2 - (- w))"
        using representable_minus[OF r] True w(1) by (intro half_minus_rep) simp_all
      then have "representable (- (1 / 2 - (- w)))" by (rule representable_minus)
      then have "representable (- (1 / 2) - w)" by simp
      then have e2: "val t2 = - (1 / 2) - w" unfolding v2 by (rule rnd_exact)
      then have "val x1 < val t2" using True by (simp add: x1 w_def)
      then have n2: "f32_lt x1 t2 = True" by (simp add: c2)
      show ?thesis unfolding sf n2 using True False by (simp add: e2 fold_real_def)
    next
      case nl: False
      then have "- (1 / 2) - w \<le> - (1 / 4)" by simp
      then have "val t2 \<le> - (1 / 4)" unfolding v2 by (rule rnd_le[OF _ representable_minus[OF rep_consts(5)]])
      then have "\<not> val x1 < val t2" using nl by (simp add: x1 w_def)
      then have n2: "f32_lt x1 t2 = False" by (simp add: c2)
      show ?thesis unfolding sf n2 using nl False by (simp add: x1 fold_real_def w_def)
    qed
  qed
  then show "val (scalar_fold y) = fold_real (val y)" by (simp add: w_def)
qed

lemma fold_real_cases:
  obtains "1 / 4 < w" "fold_real w = 1 / 2 - w"
  | "w < - (1 / 4)" "fold_real w = - (1 / 2) - w"
  | "- (1 / 4) \<le> w" "w \<le> 1 / 4" "fold_real w = w"
  unfolding fold_real_def by (cases "1 / 4 < w"; cases "w < - (1 / 4)") simp_all

lemma fold_real_bound:
  assumes "\<bar>w\<bar> < 1"
  shows "\<bar>fold_real w\<bar> \<le> 1 / 2"
proof -
  have w: "- 1 < w" "w < 1" using assms by linarith+
  show ?thesis
  proof (cases w rule: fold_real_cases)
    case 1
    then show ?thesis using w by linarith
  next
    case 2
    then show ?thesis using w by linarith
  next
    case 3
    then show ?thesis by linarith
  qed
qed

lemma fold_real_minus: "fold_real (- w) = - fold_real w"
  unfolding fold_real_def by auto

lemma sse_reduced_bound: "\<bar>sse_reduced v\<bar> \<le> 1 / 2"
  unfolding sse_reduced_def by (rule rhe_bounds')

lemma scalar_reduced_bound: "\<bar>scalar_reduced v\<bar> < 1"
  unfolding scalar_reduced_def by (rule trunc_real_bounds)

lemma sse_elem_val:
  assumes "in_range x"
  shows "finite32 (sse_elem x)" and "val (sse_elem x) = shape_real (sse_reduced (val x))"
proof -
  note r = sse_reduce_in_range[OF assms]
  have b: "\<bar>val (sse_reduce_lane x)\<bar> \<le> 1"
    using sse_reduced_bound[of "val x"] unfolding r(2) sse_reduced_def by simp
  show "finite32 (sse_elem x)" unfolding sse_elem_def by (rule shape_val(1)[OF r(1) b])
  show "val (sse_elem x) = shape_real (sse_reduced (val x))"
    unfolding sse_elem_def shape_val(2)[OF r(1) b] r(2) sse_reduced_def ..
qed

lemma scalar_elem_val:
  assumes "finite32 x" "- (2 ^ 31) - 1 < val x" "val x < 2 ^ 31"
  shows "\<exists>y. scalar_elem x = Inr y \<and> finite32 y \<and> val y = shape_real (fold_real (scalar_reduced (val x)))"
proof -
  from scalar_reduce_ok[OF assms] obtain y where y: "scalar_reduce x = Inr y" "finite32 y"
    "val y = scalar_reduced (val x)" unfolding scalar_reduced_def by blast
  have b: "\<bar>val y\<bar> < 1" unfolding y(3) by (rule scalar_reduced_bound)
  note fo = fold_val[OF y(2) b]
  have b2: "\<bar>val (scalar_fold y)\<bar> \<le> 1" using fold_real_bound[OF b] unfolding fo(2) by simp
  note sh = shape_val[OF fo(1) b2]
  show ?thesis
    using sh unfolding fo(2) y(3) by (simp add: scalar_elem_def y(1) scalar_shape_eq)
qed

lemma scalar_elem_fail:
  assumes "\<not> (finite32 x \<and> - (2 ^ 31) - 1 < val x \<and> val x < 2 ^ 31)"
  shows "scalar_elem x = Inl UndefinedConversion"
  using scalar_reduce_fail[OF assms] by (simp add: scalar_elem_def)

subsection \<open>Elements through the real-valued kernel\<close>

lemma scalar_elem_via:
  assumes "finite32 x" "- (2 ^ 31) - 1 < val x" "val x < 2 ^ 31"
  shows "\<exists>y. scalar_elem x = Inr y \<and> finite32 y
           \<and> val y = shape_real (fold_real (scalar_reduced (val x)))
           \<and> representable (fold_real (scalar_reduced (val x)))"
proof -
  from scalar_reduce_ok[OF assms] obtain y where y: "scalar_reduce x = Inr y" "finite32 y"
    "val y = scalar_reduced (val x)" unfolding scalar_reduced_def by blast
  have b: "\<bar>val y\<bar> < 1" unfolding y(3) by (rule scalar_reduced_bound)
  note fo = fold_val[OF y(2) b]
  have "representable (val (scalar_fold y))" using fo(1) by (rule representable_val)
  then have "representable (fold_real (scalar_reduced (val x)))" by (simp add: fo(2) y(3))
  then show ?thesis using scalar_elem_val[OF assms] by blast
qed

lemma in_range_castable: "in_range x \<Longrightarrow> finite32 x \<and> - (2 ^ 31) - 1 < val x \<and> val x < 2 ^ 31"
  by (simp add: in_range_def)

lemma sse_reduced_rep: "finite32 x \<Longrightarrow> representable (sse_reduced (val x))"
  unfolding sse_reduced_def by (rule sub_int_exact_rhe[OF representable_val])

subsection \<open>Symmetry\<close>

lemma sse_reduced_minus: "sse_reduced (- v) = - sse_reduced v"
  by (simp add: sse_reduced_def rhe_minus)

lemma scalar_reduced_minus: "scalar_reduced (- v) = - scalar_reduced v"
  by (simp add: scalar_reduced_def trunc_real_minus)

lemma sym_range_neg: "sym_range x \<Longrightarrow> in_range x \<and> in_range (f32_neg x)"
  by (simp add: sym_range_def in_range_def abs_less_iff)

lemma sse_elem_odd:
  assumes "sym_range x"
  shows "finite32 (sse_elem x)" "finite32 (sse_elem (f32_neg x))"
    "val (sse_elem (f32_neg x)) = - val (sse_elem x)"
proof -
  from sym_range_neg[OF assms] have a: "in_range x" and b: "in_range (f32_neg x)" by simp_all
  show "finite32 (sse_elem x)" by (rule sse_elem_val(1)[OF a])
  show "finite32 (sse_elem (f32_neg x))" by (rule sse_elem_val(1)[OF b])
  show "val (sse_elem (f32_neg x)) = - val (sse_elem x)"
    unfolding sse_elem_val(2)[OF a] sse_elem_val(2)[OF b]
    by (simp add: sse_reduced_minus shape_real_minus)
qed

lemma scalar_elem_odd:
  assumes "sym_range x"
  shows "\<exists>u v. scalar_elem x = Inr u \<and> scalar_elem (f32_neg x) = Inr v
           \<and> finite32 u \<and> finite32 v \<and> val v = - val u"
proof -
  from sym_range_neg[OF assms] have a: "in_range x" and b: "in_range (f32_neg x)" by simp_all
  from scalar_elem_val[of x] in_range_castable[OF a] obtain u where u: "scalar_elem x = Inr u"
    "finite32 u" "val u = shape_real (fold_real (scalar_reduced (val x)))" by blast
  from scalar_elem_val[of "f32_neg x"] in_range_castable[OF b] obtain v where v: "scalar_elem (f32_neg x) = Inr v"
    "finite32 v" "val v = shape_real (fold_real (scalar_reduced (val (f32_neg x))))" by blast
  have "val v = - val u"
    unfolding u(3) v(3) by (simp add: scalar_reduced_minus fold_real_minus shape_real_minus)
  then show ?thesis using u v by blast
qed

lemma eq_neg_iff:
  "finite32 a \<Longrightarrow> finite32 b \<Longrightarrow> f32_eq a (f32_neg b) = (val a = - val b)"
  using eq_iff[of a "f32_neg b"] by simp

subsection \<open>Periodicity\<close>

lemma sse_reduced_tie:
  assumes "v - of_int \<lfloor>v\<rfloor> = 1 / 2"
  shows "sse_reduced v = 1 / 2 \<or> sse_reduced v = - (1 / 2)"
  using assms unfolding sse_reduced_def round_half_even_def Let_def by (auto; linarith)

lemma shape_tie:
  assumes "v - of_int \<lfloor>v\<rfloor> = 1 / 2"
  shows "shape_real (sse_reduced v) = 0"
  using sse_reduced_tie[OF assms]
proof
  assume "sse_reduced v = 1 / 2"
  then show ?thesis by (simp only: shape_real_half)
next
  assume "sse_reduced v = - (1 / 2)"
  then show ?thesis by (simp only: shape_real_half)
qed

lemma shape_sse_reduced_add:
  "shape_real (sse_reduced (v + of_int k)) = shape_real (sse_reduced v)"
proof (cases "v - of_int \<lfloor>v\<rfloor> = 1 / 2")
  case True
  then have "(v + of_int k) - of_int \<lfloor>v + of_int k\<rfloor> = 1 / 2" by simp
  then show ?thesis by (simp only: shape_tie[OF True] shape_tie)
next
  case False
  then show ?thesis by (simp add: sse_reduced_def rhe_add_int_nontie)
qed

lemma shape_fold_step:
  assumes w: "- 1 < w" "w < 0"
    and r1: "representable (fold_real w)" and r2: "representable (fold_real (w + 1))"
  shows "shape_real (fold_real w) = shape_real (fold_real (w + 1))"
proof -
  consider "w \<le> - (3 / 4)" | "- (3 / 4) < w" "w < - (1 / 4)" | "- (1 / 4) \<le> w" by linarith
  then show ?thesis
  proof cases
    case 1
    then have f: "fold_real w = - (1 / 2) - w" "fold_real (w + 1) = w + 1"
      using w by (simp_all add: fold_real_def)
    show ?thesis
      using r1 r2 unfolding f by (rule shape_sym) (use 1 w in simp_all)
  next
    case 2
    then have "fold_real w = - (1 / 2) - w" "fold_real (w + 1) = - (1 / 2) - w"
      by (simp_all add: fold_real_def)
    then show ?thesis by simp
  next
    case 3
    then have f: "fold_real w = w" "fold_real (w + 1) = - (1 / 2) - w"
      using w by (simp_all add: fold_real_def)
    define b where "b = - (- (1 / 2) - w)"
    have b: "0 \<le> b" "- w + b = 1 / 2" "- (1 / 2) - w = - b" using 3 by (simp_all add: b_def)
    have "shape_real (- w) = shape_real b"
    proof (rule shape_sym)
      show "representable (- w)" using r1 representable_minus unfolding f by blast
      show "representable b" unfolding b_def using r2 unfolding f by (rule representable_minus)
    qed (use b w in simp_all)
    then have "- shape_real w = - shape_real (- b)" by (simp only: shape_real_minus minus_minus)
    then show ?thesis unfolding f b(3) by simp
  qed
qed

lemma shape_fold_period:
  assumes b1: "\<bar>w1\<bar> < 1" and b2: "\<bar>w2\<bar> < 1" and d: "w2 - w1 = of_int j"
    and r1: "representable (fold_real w1)" and r2: "representable (fold_real w2)"
  shows "shape_real (fold_real w1) = shape_real (fold_real w2)"
proof -
  have "\<bar>of_int j :: real\<bar> < of_int 2" using b1 b2 unfolding d[symmetric] by linarith
  then have "\<bar>j\<bar> < 2" by (simp only: of_int_abs[symmetric] of_int_less_iff)
  then consider "j = 0" | "j = 1" | "j = - 1" by linarith
  then show ?thesis
  proof cases
    case 1
    then show ?thesis using d by simp
  next
    case 2
    then have e: "w2 = w1 + 1" using d by simp
    have "- 1 < w1" "w1 < 0" using b1 b2 e by linarith+
    then show ?thesis using r1 r2 unfolding e by (rule shape_fold_step)
  next
    case 3
    then have e: "w1 = w2 + 1" using d by simp
    have "- 1 < w2" "w2 < 0" using b1 b2 e by linarith+
    then show ?thesis using r2 r1 unfolding e by (rule shape_fold_step[symmetric])
  qed
qed

lemma scalar_reduced_diff:
  "\<exists>j. scalar_reduced (v + of_int k) - scalar_reduced v = of_int j"
proof -
  have "scalar_reduced (v + of_int k) - scalar_reduced v
      = of_int (k + trunc_real v - trunc_real (v + of_int k))"
    by (simp add: scalar_reduced_def)
  then show ?thesis by blast
qed

subsection \<open>The two versions against each other\<close>

lemma shape_exact_fold:
  assumes u: "\<bar>u\<bar> \<le> 1 / 2" and w: "\<bar>w\<bar> < 1" and d: "u - w = of_int j"
  shows "shape_exact u = shape_exact (fold_real w)"
proof -
  have "\<bar>of_int j :: real\<bar> < of_int 2" using u w unfolding d[symmetric] by linarith
  then have "\<bar>j\<bar> < 2" by (simp only: of_int_abs[symmetric] of_int_less_iff)
  then consider "j = 0" | "j = 1" | "j = - 1" by linarith
  then show ?thesis
  proof cases
    case 1
    then have e: "u = w" using d by simp
    show ?thesis
    proof (cases w rule: fold_real_cases)
      case 1
      have a: "\<bar>w\<bar> = w" "\<bar>1 / 2 - w\<bar> = 1 / 2 - w" using 1(1) u e by linarith+
      show ?thesis unfolding e 1(2) shape_exact_def a by (simp add: algebra_simps)
    next
      case 2
      have a: "\<bar>w\<bar> = - w" "\<bar>- (1 / 2) - w\<bar> = 1 / 2 + w" using 2(1) u e by linarith+
      show ?thesis unfolding e 2(2) shape_exact_def a by (simp add: algebra_simps)
    next
      case 3
      then show ?thesis unfolding e by simp
    qed
  next
    case 2
    then have e: "u = w + 1" using d by simp
    then have "w \<le> - (1 / 2)" "- 1 < w" using u w by linarith+
    then have a: "fold_real w = - (1 / 2) - w" "\<bar>w + 1\<bar> = w + 1" "\<bar>- (1 / 2) - w\<bar> = - (1 / 2) - w"
      by (simp_all add: fold_real_def)
    show ?thesis unfolding e a(1) shape_exact_def a(2,3) by (simp add: algebra_simps)
  next
    case 3
    then have e: "u = w - 1" using d by simp
    then have "1 / 2 \<le> w" "w < 1" using u w by linarith+
    then have a: "fold_real w = 1 / 2 - w" "\<bar>w - 1\<bar> = 1 - w" "\<bar>1 / 2 - w\<bar> = w - 1 / 2"
      by (simp_all add: fold_real_def)
    show ?thesis unfolding e a(1) shape_exact_def a(2,3) by (simp add: algebra_simps)
  qed
qed

lemma reduced_diff: "\<exists>j. sse_reduced v - scalar_reduced v = of_int j"
proof -
  have "sse_reduced v - scalar_reduced v = of_int (trunc_real v - round_half_even v)"
    by (simp add: sse_reduced_def scalar_reduced_def)
  then show ?thesis by blast
qed

subsection \<open>Concrete patterns and inputs out of range\<close>

lemma dec_consts:
  "decode 0x3E800000 = Fin False 8388608 (- 25)"
  "decode 0x3F000000 = Fin False 8388608 (- 24)"
  "decode 0xBF000000 = Fin True 8388608 (- 24)"
  "decode 0x3F400000 = Fin False 12582912 (- 24)"
  "decode 0xBE800000 = Fin True 8388608 (- 25)"
  "decode 0x3FC00000 = Fin False 12582912 (- 23)"
  "decode 0x4F000000 = Fin False 8388608 8"
  "decode 0x4EFFFFFF = Fin False 16777215 7"
  "decode 0xE1800000 = Fin True 8388608 45"
  "decode 0x4F800000 = Fin False 8388608 9"
  "decode 0 = Fin False 0 (- 149)"
  "decode 0x80000000 = Fin True 0 (- 149)"
  by code_simp+

lemma val_consts:
  "val 0x3E800000 = 1 / 4" "val 0x3F000000 = 1 / 2" "val 0xBF000000 = - (1 / 2)"
  "val 0x3F400000 = 3 / 4" "val 0xBE800000 = - (1 / 4)" "val 0x3FC00000 = 3 / 2"
  "val 0x4F000000 = 2 ^ 31" "val 0x4EFFFFFF = 2 ^ 31 - 128" "val 0xE1800000 = - (2 ^ 68)"
  "val 0x4F800000 = 2 ^ 32" "val 0 = 0" "val 0x80000000 = 0"
  by (simp_all add: val_def dec_consts)

lemma fin_consts:
  "finite32 0x3E800000" "finite32 0x3F000000" "finite32 0xBF000000" "finite32 0x3F400000"
  "finite32 0x4F000000" "finite32 0x4EFFFFFF" "finite32 0xE1800000" "finite32 0" "finite32 0x80000000"
  by (simp_all add: finite32_def dec_consts)

lemma eval_consts:
  "sse_elem 0x4F000000 = 0xE1800000"
  "scalar_elem 0x4F000000 = Inl UndefinedConversion"
  "sse_reduce_lane 0x4F000000 = 0x4F800000"
  "f32_neg 0x4F000000 = 0xCF000000"
  "sse_elem 0xCF000000 = 0"
  "sse_elem 0x4EFFFFFF = 0"
  "sse_elem 0x3F000000 = 0"
  "sse_elem 0x3FC00000 = 0x80000000"
  "scalar_reduce 0x3F400000 = Inr 0x3F400000"
  "sse_reduce_lane 0x3F400000 = 0xBE800000"
  "sse_reduce_lane 0xBF000000 = 0xBF000000"
  "f32_eq (sse_elem (f32_neg 0x4F000000)) (f32_neg (sse_elem 0x4F000000)) = False"
  by code_simp+


lemma sint_min32: "sint (0x80000000 :: 32 word) = - (2 ^ 31)"
  by simp

lemma rnd_int_cases:
  fixes n :: int
  shows "rnd (of_int n) = 0 \<or> 1 \<le> \<bar>rnd (of_int n)\<bar>"
proof -
  consider "n = 0" | "1 \<le> n" | "n \<le> - 1" by linarith
  then show ?thesis
  proof cases
    case 1
    then show ?thesis by simp
  next
    case 2
    then have "(1::real) \<le> of_int n" by simp
    then have "1 \<le> rnd (of_int n)" by (rule rnd_ge[OF _ rep_consts(1)])
    then show ?thesis by simp
  next
    case 3
    then have "of_int n \<le> (- 1 :: real)" by (simp flip: of_int_le_iff)
    then have "rnd (of_int n) \<le> - 1" by (rule rnd_le[OF _ representable_minus[OF rep_consts(1)]])
    then show ?thesis by simp
  qed
qed

lemma sse_reduce_big:
  assumes f: "finite32 x" and b: "2 ^ 23 \<le> \<bar>val x\<bar>" and fr: "finite32 (sse_reduce_lane x)"
  shows "val (sse_reduce_lane x) = 0 \<or> 1 \<le> \<bar>val (sse_reduce_lane x)\<bar>"
proof -
  from big_is_int[OF representable_val[OF f] b] obtain z where z: "val x = of_int z" by blast
  show ?thesis
  proof (cases "- (2 ^ 31) \<le> z \<and> z < 2 ^ 31")
    case True
    then have "(of_int (- (2 ^ 31)) :: real) \<le> of_int z" "(of_int z :: real) < of_int (2 ^ 31)"
      by (simp_all only: of_int_le_iff of_int_less_iff)
    then have "in_range x" using f by (simp add: in_range_def z)
    from sse_reduce_in_range(2)[OF this] show ?thesis by (simp add: z)
  next
    case False
    then have "\<not> (finite32 x \<and> - (2 ^ 31) \<le> round_half_even (val x) \<and> round_half_even (val x) < 2 ^ 31)"
      by (simp add: z)
    from cvtps_out[OF this] have c: "cvtps_epi32 x = 0x80000000" .
    have "rnd (of_int (- (2 ^ 31))) = (of_int (- (2 ^ 31)) :: real)"
      using representable_minus[OF rep_consts(7)] by (intro rnd_exact) simp
    then have cv: "val (cast_float (cvtps_epi32 x)) = - (2 ^ 31)"
      by (simp add: c cast_float_val sint_min32)
    have "val (sse_reduce_lane x) = rnd (val x - val (cast_float (cvtps_epi32 x)))"
      using sub_val[OF fr[unfolded sse_reduce_lane_def]] by (simp add: sse_reduce_lane_def)
    also have "\<dots> = rnd (of_int (z + 2 ^ 31))" by (simp add: cv z)
    finally show ?thesis using rnd_int_cases[of "z + 2 ^ 31"] by simp
  qed
qed

lemma sse_boundary_small:
  assumes "\<bar>val (sse_reduce_lane x)\<bar> = 1 / 2"
  shows "sym_range x"
proof -
  have fr: "finite32 (sse_reduce_lane x)" using assms by (intro val_nonzero_finite) auto
  then have f: "finite32 x" using sub_fin unfolding sse_reduce_lane_def by blast
  have "\<not> 2 ^ 23 \<le> \<bar>val x\<bar>" using sse_reduce_big[OF f _ fr] assms by auto
  then show ?thesis using f by (simp add: sym_range_def)
qed

lemma shape_real_0 [simp]: "shape_real 0 = 0"
  by (simp add: shape_real_def)

lemma half_abs_cases: "\<bar>u\<bar> = 1 / 2 \<Longrightarrow> u = 1 / 2 \<or> u = - (1 / (2::real))"
  by linarith

lemma shape_real_half_abs:
  assumes "\<bar>u\<bar> = 1 / 2"
  shows "shape_real u = 0"
  using half_abs_cases[OF assms]
proof
  assume "u = 1 / 2"
  then show ?thesis by (simp only: shape_real_half)
next
  assume "u = - (1 / 2)"
  then show ?thesis by (simp only: shape_real_half)
qed

lemma fold_real_half_abs:
  assumes "\<bar>w\<bar> = 1 / 2"
  shows "fold_real w = 0"
  using half_abs_cases[OF assms]
proof
  assume "w = 1 / 2"
  then show ?thesis by (simp add: fold_real_def)
next
  assume "w = - (1 / 2)"
  then show ?thesis by (simp add: fold_real_def)
qed

lemma scalar_reduce_Inr:
  assumes "scalar_reduce x = Inr r"
  shows "finite32 x \<and> - (2 ^ 31) - 1 < val x \<and> val x < 2 ^ 31 \<and> finite32 r \<and> val r = scalar_reduced (val x)"
proof -
  have c: "finite32 x \<and> - (2 ^ 31) - 1 < val x \<and> val x < 2 ^ 31"
    using scalar_reduce_fail[of x] assms by fastforce
  with scalar_reduce_ok[of x] assms show ?thesis by (auto simp: scalar_reduced_def)
qed

lemma scalar_boundary_small:
  assumes "scalar_reduce x = Inr r" "\<bar>val r\<bar> = 1 / 2"
  shows "sym_range x"
proof -
  from scalar_reduce_Inr[OF assms(1)] have f: "finite32 x" and v: "val r = scalar_reduced (val x)" by simp_all
  have "\<not> 2 ^ 23 \<le> \<bar>val x\<bar>"
  proof
    assume "2 ^ 23 \<le> \<bar>val x\<bar>"
    from big_is_int[OF representable_val[OF f] this] obtain z where "val x = of_int z" by blast
    then have "val r = 0" by (simp add: v scalar_reduced_def)
    then show False using assms(2) by simp
  qed
  then show ?thesis using f by (simp add: sym_range_def)
qed

subsection \<open>What both versions do to one element\<close>

lemma output_bounded_elem:
  "in_range x \<Longrightarrow>
     finite32 (sse_elem x) \<and> \<bar>val (sse_elem x)\<bar> \<le> 1
     \<and> (\<exists>y. scalar_elem x = Inr y \<and> finite32 y \<and> \<bar>val y\<bar> \<le> 1)"
proof -
  assume r: "in_range x"
  then have f: "finite32 x" by (simp add: in_range_def)
  have "\<bar>shape_real (sse_reduced (val x))\<bar> \<le> 1"
    using sse_reduced_rep[OF f] sse_reduced_bound by (rule shape_bound)
  then have a: "finite32 (sse_elem x) \<and> \<bar>val (sse_elem x)\<bar> \<le> 1"
    using sse_elem_val[OF r] by simp
  from scalar_elem_via[of x] in_range_castable[OF r] obtain y where y: "scalar_elem x = Inr y"
    "finite32 y" "val y = shape_real (fold_real (scalar_reduced (val x)))"
    "representable (fold_real (scalar_reduced (val x)))" by blast
  have "\<bar>val y\<bar> \<le> 1"
    unfolding y(3) using y(4) fold_real_bound[OF scalar_reduced_bound] by (rule shape_bound)
  then show ?thesis using a y by blast
qed

lemma in_range_quarter: "in_range 0x3E800000"
  by (simp add: in_range_def fin_consts val_consts)

lemma phase_reduction_elem:
  "in_range x \<Longrightarrow>
     finite32 (sse_reduce_lane x)
     \<and> val (sse_reduce_lane x) = val x - of_int (round_half_even (val x))
     \<and> \<bar>val (sse_reduce_lane x)\<bar> \<le> 1 / 2
     \<and> (\<exists>y. scalar_reduce x = Inr y \<and> finite32 y
            \<and> val y = val x - of_int (trunc_real (val x)) \<and> \<bar>val y\<bar> < 1
            \<and> finite32 (scalar_fold y) \<and> val (scalar_fold y) = fold_real (val y)
            \<and> \<bar>val (scalar_fold y)\<bar> \<le> 1 / 2)"
proof -
  assume r: "in_range x"
  note s = sse_reduce_in_range[OF r]
  have b: "\<bar>val (sse_reduce_lane x)\<bar> \<le> 1 / 2" unfolding s(2) by (rule rhe_bounds')
  from scalar_reduce_ok[of x] in_range_castable[OF r] obtain y where y: "scalar_reduce x = Inr y"
    "finite32 y" "val y = val x - of_int (trunc_real (val x))" by blast
  have yb: "\<bar>val y\<bar> < 1" unfolding y(3) by (rule trunc_real_bounds)
  note fo = fold_val[OF y(2) yb]
  have "\<bar>val (scalar_fold y)\<bar> \<le> 1 / 2" unfolding fo(2) by (rule fold_real_bound[OF yb])
  then show ?thesis using s b y yb fo by blast
qed

lemma in_range_3q: "in_range 0x3F400000"
  by (simp add: in_range_def fin_consts val_consts)

lemma versions_agree_elem:
  "in_range x \<Longrightarrow>
     finite32 (sse_elem x)
     \<and> (\<exists>y. scalar_elem x = Inr y \<and> finite32 y \<and> \<bar>val (sse_elem x) - val y\<bar> \<le> 1 / 10 ^ 6)"
proof -
  assume r: "in_range x"
  then have f: "finite32 x" by (simp add: in_range_def)
  define u where "u = sse_reduced (val x)"
  define w where "w = fold_real (scalar_reduced (val x))"
  note s = sse_elem_val[OF r, folded u_def]
  from scalar_elem_via[of x] in_range_castable[OF r] obtain y where y: "scalar_elem x = Inr y"
    "finite32 y" "val y = shape_real w" "representable w" unfolding w_def by blast
  have ub: "\<bar>u\<bar> \<le> 1 / 2" unfolding u_def by (rule sse_reduced_bound)
  have wb: "\<bar>w\<bar> \<le> 1 / 2" unfolding w_def by (rule fold_real_bound[OF scalar_reduced_bound])
  obtain j where j: "u - scalar_reduced (val x) = of_int j" using reduced_diff[of "val x"] unfolding u_def by blast
  have e: "shape_exact u = shape_exact w"
    unfolding w_def using ub scalar_reduced_bound j by (rule shape_exact_fold)
  have e1: "\<bar>shape_real u - shape_exact u\<bar> \<le> 3 / 2 ^ 24"
    using sse_reduced_rep[OF f, folded u_def] ub by (rule shape_error)
  have e2: "\<bar>shape_real w - shape_exact w\<bar> \<le> 3 / 2 ^ 24"
    using y(4) wb by (rule shape_error)
  have "\<bar>shape_real u - shape_real w\<bar> \<le> 3 / 2 ^ 24 + 3 / 2 ^ 24" using e1 e2 unfolding e by linarith
  also have "\<dots> \<le> (1::real) / 10 ^ 6" by simp
  finally have "\<bar>val (sse_elem x) - val y\<bar> \<le> 1 / 10 ^ 6" unfolding s(2) y(3) .
  then show ?thesis using s(1) y by blast
qed

lemma periodicity_elem:
  "in_range x \<Longrightarrow> in_range y \<Longrightarrow> val y = val x + of_int k \<Longrightarrow>
     f32_eq (sse_elem x) (sse_elem y)
     \<and> (\<exists>u v. scalar_elem x = Inr u \<and> scalar_elem y = Inr v \<and> f32_eq u v)"
proof -
  assume rx: "in_range x" and ry: "in_range y" and d: "val y = val x + of_int k"
  note sx = sse_elem_val[OF rx] and sy = sse_elem_val[OF ry]
  have "val (sse_elem x) = val (sse_elem y)"
    unfolding sx(2) sy(2) d by (rule shape_sse_reduced_add[symmetric])
  then have a: "f32_eq (sse_elem x) (sse_elem y)" using eq_iff[OF sx(1) sy(1)] by simp
  from scalar_elem_via[of x] in_range_castable[OF rx] obtain u where u: "scalar_elem x = Inr u"
    "finite32 u" "val u = shape_real (fold_real (scalar_reduced (val x)))"
    "representable (fold_real (scalar_reduced (val x)))" by blast
  from scalar_elem_via[of y] in_range_castable[OF ry] obtain v where v: "scalar_elem y = Inr v"
    "finite32 v" "val v = shape_real (fold_real (scalar_reduced (val y)))"
    "representable (fold_real (scalar_reduced (val y)))" by blast
  obtain j where j: "scalar_reduced (val y) - scalar_reduced (val x) = of_int j"
    using scalar_reduced_diff[of "val x" k] unfolding d by blast
  have "val u = val v"
    unfolding u(3) v(3) using scalar_reduced_bound scalar_reduced_bound j u(4) v(4)
    by (rule shape_fold_period)
  then have "f32_eq u v" using eq_iff[OF u(2) v(2)] by simp
  then show ?thesis using a u(1) v(1) by blast
qed

lemma in_range_half: "in_range 0x3F000000" and in_range_3h: "in_range 0x3FC00000"
  by (simp_all add: in_range_def finite32_def val_def dec_consts)

lemma odd_symmetry_elem:
  "sym_range x \<Longrightarrow>
     (\<bar>val (sse_reduce_lane x)\<bar> \<noteq> 1 / 2 \<longrightarrow> f32_eq (sse_elem (f32_neg x)) (f32_neg (sse_elem x)))
     \<and> (\<exists>r u v. scalar_reduce x = Inr r \<and> scalar_elem x = Inr u \<and> scalar_elem (f32_neg x) = Inr v
            \<and> (\<bar>val r\<bar> \<noteq> 1 / 2 \<longrightarrow> f32_eq v (f32_neg u)))"
proof -
  assume s: "sym_range x"
  note o = sse_elem_odd[OF s]
  have a: "f32_eq (sse_elem (f32_neg x)) (f32_neg (sse_elem x))"
    using eq_neg_iff[OF o(2) o(1)] o(3) by simp
  from scalar_elem_odd[OF s] obtain u v where uv: "scalar_elem x = Inr u" "scalar_elem (f32_neg x) = Inr v"
    "finite32 u" "finite32 v" "val v = - val u" by blast
  have b: "f32_eq v (f32_neg u)" using eq_neg_iff[OF uv(4) uv(3)] uv(5) by simp
  obtain r where r: "scalar_reduce x = Inr r"
    using uv(1) by (cases "scalar_reduce x") (simp_all add: scalar_elem_def)
  show ?thesis using a b uv(1,2) r by blast
qed

lemma sym_range_quarter: "sym_range 0x3E800000"
  by (simp add: sym_range_def fin_consts val_consts)

lemma boundary_symmetry_elem:
  "(\<bar>val (sse_reduce_lane x)\<bar> = 1 / 2 \<longrightarrow>
       finite32 (sse_elem x) \<and> val (sse_elem x) = 0
       \<and> finite32 (sse_elem (f32_neg x)) \<and> val (sse_elem (f32_neg x)) = 0
       \<and> f32_eq (sse_elem (f32_neg x)) (f32_neg (sse_elem x)))
   \<and> (\<forall>r. scalar_reduce x = Inr r \<and> \<bar>val r\<bar> = 1 / 2 \<longrightarrow>
         (\<exists>u v. scalar_elem x = Inr u \<and> scalar_elem (f32_neg x) = Inr v
            \<and> finite32 u \<and> val u = 0 \<and> finite32 v \<and> val v = 0 \<and> f32_eq v (f32_neg u)))"
proof (intro conjI impI allI)
  assume h: "\<bar>val (sse_reduce_lane x)\<bar> = 1 / 2"
  from sse_boundary_small[OF h] have s: "sym_range x" .
  then have r: "in_range x" using sym_range_neg by blast
  note o = sse_elem_odd[OF s]
  have "\<bar>sse_reduced (val x)\<bar> = 1 / 2"
    using h sse_reduce_in_range(2)[OF r] by (simp add: sse_reduced_def)
  then have z: "val (sse_elem x) = 0" unfolding sse_elem_val(2)[OF r] by (rule shape_real_half_abs)
  show "finite32 (sse_elem x)" by (rule o(1))
  show "val (sse_elem x) = 0" by (rule z)
  show "finite32 (sse_elem (f32_neg x))" by (rule o(2))
  show "val (sse_elem (f32_neg x)) = 0" using o(3) z by simp
  show "f32_eq (sse_elem (f32_neg x)) (f32_neg (sse_elem x))"
    using eq_neg_iff[OF o(2) o(1)] o(3) by simp
next
  fix r
  assume h: "scalar_reduce x = Inr r \<and> \<bar>val r\<bar> = 1 / 2"
  then have s: "sym_range x" using scalar_boundary_small by blast
  from scalar_elem_odd[OF s] obtain u v where uv: "scalar_elem x = Inr u" "scalar_elem (f32_neg x) = Inr v"
    "finite32 u" "finite32 v" "val v = - val u" by blast
  have c: "finite32 x \<and> - (2 ^ 31) - 1 < val x \<and> val x < 2 ^ 31" and rv: "val r = scalar_reduced (val x)"
    using scalar_reduce_Inr[of x r] h by simp_all
  from scalar_elem_val[of x] c uv(1) have "val u = shape_real (fold_real (scalar_reduced (val x)))"
    by auto
  also have "fold_real (scalar_reduced (val x)) = 0"
    using h unfolding rv by (intro fold_real_half_abs) simp
  finally have z: "val u = 0" by simp
  have "f32_eq v (f32_neg u)" using eq_neg_iff[OF uv(4) uv(3)] uv(5) by simp
  then show "\<exists>u v. scalar_elem x = Inr u \<and> scalar_elem (f32_neg x) = Inr v
            \<and> finite32 u \<and> val u = 0 \<and> finite32 v \<and> val v = 0 \<and> f32_eq v (f32_neg u)"
    using uv z by auto
qed

lemma scalar_defined_elem:
  "(\<exists>y. scalar_elem x = Inr y) = (finite32 x \<and> - (2 ^ 31) - 1 < val x \<and> val x < 2 ^ 31)"
proof (cases "finite32 x \<and> - (2 ^ 31) - 1 < val x \<and> val x < 2 ^ 31")
  case True
  then show ?thesis using scalar_elem_val[of x] by blast
next
  case False
  then show ?thesis using scalar_elem_fail[OF False] by simp
qed

subsection \<open>The loops\<close>

lemma abs_mask_lanes: "abs_mask = M128 0x7FFFFFFF 0x7FFFFFFF 0x7FFFFFFF 0x7FFFFFFF"
  by code_simp

lemma sse_reduce_lanes:
  "sse_reduce (M128 a b c d)
     = M128 (sse_reduce_lane a) (sse_reduce_lane b) (sse_reduce_lane c) (sse_reduce_lane d)"
  by (simp add: sse_reduce_def mm_sub_ps_def mm_cvtepi32_ps_def mm_cvtps_epi32_def sse_reduce_lane_def)

lemma sse_shape_lanes:
  "sse_shape (M128 a b c d)
     = M128 (sse_shape_lane a) (sse_shape_lane b) (sse_shape_lane c) (sse_shape_lane d)"
  by (simp add: sse_shape_def mm_sub_ps_def mm_mul_ps_def mm_and_ps_def c2_def c3_def mm_set1_ps_def
      abs_mask_lanes sse_shape_lane_def)

lemma sse_body_lanes:
  "sse_shape (sse_reduce (M128 a b c d)) = M128 (sse_elem a) (sse_elem b) (sse_elem c) (sse_elem d)"
  by (simp add: sse_reduce_lanes sse_shape_lanes sse_elem_def)

lemma lane_sse_reduce: "i < 4 \<Longrightarrow> lane i (sse_reduce v) = sse_reduce_lane (lane i v)"
  by (cases v) (auto simp: sse_reduce_lanes nth_Cons' )

lemma step4: "(i::int) < n \<Longrightarrow> (n - i) mod 4 = 0 \<Longrightarrow> i + 4 \<le> n"
  by presburger

lemma sse_loop_run:
  assumes "0 \<le> i" "(n - i) mod 4 = 0" "nat n \<le> length xs" "nat n \<le> length (outs st)"
  shows "\<exists>st'. sse_loop n xs i st = Inr st' \<and> length (outs st') = length (outs st)
           \<and> (\<forall>j. nat i \<le> j \<and> j < nat n \<longrightarrow> outs st' ! j = sse_elem (xs ! j))
           \<and> (\<forall>j. j < nat i \<or> nat n \<le> j \<longrightarrow> outs st' ! j = outs st ! j)"
  using assms
proof (induction n xs i st rule: sse_loop.induct)
  case (1 n xs i st)
  show ?case
  proof (cases "i < n")
    case False
    then have "nat n \<le> nat i" by simp
    then have "\<And>j. \<not> (nat i \<le> j \<and> j < nat n)" by linarith
    moreover have "sse_loop n xs i st = Inr st" using False by (subst sse_loop.simps) simp
    ultimately show ?thesis by auto
  next
    case True
    from step4[OF True "1.prems"(2)] have i4: "i + 4 \<le> n" .
    define k where "k = nat i"
    have k: "k + 4 \<le> length xs" "k + 4 \<le> length (outs st)" "k + 4 \<le> nat n" "nat (i + 4) = k + 4"
      using i4 "1.prems" by (simp_all add: k_def)
    define x where "x = M128 (xs ! k) (xs ! (k + 1)) (xs ! (k + 2)) (xs ! (k + 3))"
    define st1 where "st1 = st\<lparr>trace := trace st @ [Load k, Load (k + 1), Load (k + 2), Load (k + 3)]\<rparr>"
    have ld: "mm_load_ps xs i st = Inr (x, st1)"
      using k "1.prems"(1) by (simp add: mm_load_ps_def x_def st1_def k_def Let_def)
    define st2 where "st2 = st1\<lparr>outs := (outs st1)[k := sse_elem (xs ! k), k + 1 := sse_elem (xs ! (k + 1)),
        k + 2 := sse_elem (xs ! (k + 2)), k + 3 := sse_elem (xs ! (k + 3))],
      trace := trace st1 @ [Store k, Store (k + 1), Store (k + 2), Store (k + 3)]\<rparr>"
    have sto: "mm_store_ps i (sse_shape (sse_reduce x)) st1 = Inr st2"
      using k "1.prems"(1) by (simp add: x_def sse_body_lanes st1_def st2_def k_def Let_def)
    have o2: "outs st2 = (outs st)[k := sse_elem (xs ! k), k + 1 := sse_elem (xs ! (k + 1)),
        k + 2 := sse_elem (xs ! (k + 2)), k + 3 := sse_elem (xs ! (k + 3))]"
      by (simp add: st2_def st1_def)
    have l2: "length (outs st2) = length (outs st)" by (simp add: o2)
    have "\<exists>st'. sse_loop n xs (i + 4) st2 = Inr st' \<and> length (outs st') = length (outs st2)
           \<and> (\<forall>j. nat (i + 4) \<le> j \<and> j < nat n \<longrightarrow> outs st' ! j = sse_elem (xs ! j))
           \<and> (\<forall>j. j < nat (i + 4) \<or> nat n \<le> j \<longrightarrow> outs st' ! j = outs st2 ! j)"
    proof (rule "1.IH"[OF True ld refl sto])
      show "0 \<le> i + 4" using "1.prems"(1) by simp
      show "(n - (i + 4)) mod 4 = 0" using "1.prems"(2) by presburger
      show "nat n \<le> length xs" by (rule "1.prems"(3))
      show "nat n \<le> length (outs st2)" using "1.prems"(4) by (simp add: l2)
    qed
    then obtain st' where st': "sse_loop n xs (i + 4) st2 = Inr st'" "length (outs st') = length (outs st2)"
      "\<And>j. k + 4 \<le> j \<Longrightarrow> j < nat n \<Longrightarrow> outs st' ! j = sse_elem (xs ! j)"
      "\<And>j. j < k + 4 \<or> nat n \<le> j \<Longrightarrow> outs st' ! j = outs st2 ! j"
      unfolding k(4) by blast
    have run: "sse_loop n xs i st = Inr st'"
      using True by (subst sse_loop.simps) (simp add: ld sto st'(1))
    have a: "outs st' ! j = sse_elem (xs ! j)" if "k \<le> j" "j < nat n" for j
    proof (cases "k + 4 \<le> j")
      case True
      then show ?thesis using st'(3) that by simp
    next
      case False
      then have "j = k \<or> j = k + 1 \<or> j = k + 2 \<or> j = k + 3" using that by linarith
      then show ?thesis using st'(4)[of j] False k by (auto simp: o2)
    qed
    have b: "outs st' ! j = outs st ! j" if "j < k \<or> nat n \<le> j" for j
    proof -
      have "outs st' ! j = outs st2 ! j" using st'(4)[of j] that by auto
      also have "\<dots> = outs st ! j" using that k by (auto simp: o2)
      finally show ?thesis .
    qed
    show ?thesis using run st'(2) l2 a b by (auto simp: k_def)
  qed
qed


lemma scalar_elem_error: "scalar_elem x = Inl e \<Longrightarrow> e = UndefinedConversion"
  using scalar_elem_fail[of x] scalar_elem_val[of x] by (cases "finite32 x \<and> - (2 ^ 31) - 1 < val x \<and> val x < 2 ^ 31") auto

lemma scalar_loop_run:
  assumes "0 \<le> i" "nat n \<le> length xs" "nat n \<le> length (outs st)"
    "\<forall>j. nat i \<le> j \<and> j < nat n \<longrightarrow> (\<exists>y. scalar_elem (xs ! j) = Inr y)"
  shows "\<exists>st'. scalar_loop n xs i st = Inr st' \<and> length (outs st') = length (outs st)
           \<and> (\<forall>j. nat i \<le> j \<and> j < nat n \<longrightarrow> scalar_elem (xs ! j) = Inr (outs st' ! j))
           \<and> (\<forall>j. j < nat i \<or> nat n \<le> j \<longrightarrow> outs st' ! j = outs st ! j)"
  using assms
proof (induction n xs i st rule: scalar_loop.induct)
  case (1 n xs i st)
  show ?case
  proof (cases "i < n")
    case False
    then have "nat n \<le> nat i" by simp
    then have "\<And>j. \<not> (nat i \<le> j \<and> j < nat n)" by linarith
    moreover have "scalar_loop n xs i st = Inr st" using False by (subst scalar_loop.simps) simp
    ultimately show ?thesis by auto
  next
    case True
    define k where "k = nat i"
    have k: "k < length xs" "k < length (outs st)" "k < nat n" "nat (i + 1) = k + 1"
      using True "1.prems" by (simp_all add: k_def)
    define st1 where "st1 = st\<lparr>trace := trace st @ [Load k]\<rparr>"
    have ld: "load_f32 xs i st = Inr (xs ! k, st1)"
      using k "1.prems"(1) by (simp add: load_f32_def st1_def k_def)
    from "1.prems"(4) k obtain y where y: "scalar_elem (xs ! k) = Inr y" unfolding k_def by blast
    define st2 where "st2 = st1\<lparr>outs := (outs st1)[k := y], trace := trace st1 @ [Store k]\<rparr>"
    have sto: "store_f32 i y st1 = Inr st2"
      using k "1.prems"(1) by (simp add: store_f32_def st1_def st2_def k_def)
    have o2: "outs st2 = (outs st)[k := y]" by (simp add: st2_def st1_def)
    have l2: "length (outs st2) = length (outs st)" by (simp add: o2)
    have "\<exists>st'. scalar_loop n xs (i + 1) st2 = Inr st' \<and> length (outs st') = length (outs st2)
           \<and> (\<forall>j. nat (i + 1) \<le> j \<and> j < nat n \<longrightarrow> scalar_elem (xs ! j) = Inr (outs st' ! j))
           \<and> (\<forall>j. j < nat (i + 1) \<or> nat n \<le> j \<longrightarrow> outs st' ! j = outs st2 ! j)"
    proof (rule "1.IH"[OF True ld refl y sto])
      show "0 \<le> i + 1" using "1.prems"(1) by simp
      show "nat n \<le> length xs" by (rule "1.prems"(2))
      show "nat n \<le> length (outs st2)" using "1.prems"(3) by (simp add: l2)
      show "\<forall>j. nat (i + 1) \<le> j \<and> j < nat n \<longrightarrow> (\<exists>y. scalar_elem (xs ! j) = Inr y)"
        using "1.prems"(4) k by (simp add: k_def)
    qed
    then obtain st' where st': "scalar_loop n xs (i + 1) st2 = Inr st'" "length (outs st') = length (outs st2)"
      "\<And>j. k + 1 \<le> j \<Longrightarrow> j < nat n \<Longrightarrow> scalar_elem (xs ! j) = Inr (outs st' ! j)"
      "\<And>j. j < k + 1 \<or> nat n \<le> j \<Longrightarrow> outs st' ! j = outs st2 ! j"
      unfolding k(4) by blast
    have run: "scalar_loop n xs i st = Inr st'"
      using True by (subst scalar_loop.simps) (simp add: ld y sto st'(1))
    have a: "scalar_elem (xs ! j) = Inr (outs st' ! j)" if "k \<le> j" "j < nat n" for j
    proof (cases "k + 1 \<le> j")
      case True
      then show ?thesis using st'(3) that by simp
    next
      case False
      then have "j = k" using that by linarith
      then show ?thesis using st'(4)[of j] k y by (simp add: o2)
    qed
    have b: "outs st' ! j = outs st ! j" if "j < k \<or> nat n \<le> j" for j
    proof -
      have "outs st' ! j = outs st2 ! j" using st'(4)[of j] that k by auto
      also have "\<dots> = outs st ! j" using that k by (auto simp: o2)
      finally show ?thesis .
    qed
    show ?thesis using run st'(2) l2 a b by (auto simp: k_def)
  qed
qed

lemma scalar_loop_fail:
  assumes "0 \<le> i" "nat n \<le> length xs" "nat n \<le> length (outs st)"
    "\<exists>j. nat i \<le> j \<and> j < nat n \<and> (\<exists>e. scalar_elem (xs ! j) = Inl e)"
  shows "scalar_loop n xs i st = Inl UndefinedConversion"
  using assms
proof (induction n xs i st rule: scalar_loop.induct)
  case (1 n xs i st)
  from "1.prems"(4) obtain j0 where j0: "nat i \<le> j0" "j0 < nat n" "\<exists>e. scalar_elem (xs ! j0) = Inl e" by blast
  then have True: "i < n" by linarith
  define k where "k = nat i"
  have k: "k < length xs" "k < length (outs st)" "k < nat n" "nat (i + 1) = k + 1"
    using True "1.prems" by (simp_all add: k_def)
  define st1 where "st1 = st\<lparr>trace := trace st @ [Load k]\<rparr>"
  have ld: "load_f32 xs i st = Inr (xs ! k, st1)"
    using k "1.prems"(1) by (simp add: load_f32_def st1_def k_def)
  show ?case
  proof (cases "scalar_elem (xs ! k)")
    case (Inl e)
    then have "e = UndefinedConversion" by (rule scalar_elem_error)
    then show ?thesis using True Inl by (subst scalar_loop.simps) (simp add: ld)
  next
    case (Inr y)
    define st2 where "st2 = st1\<lparr>outs := (outs st1)[k := y], trace := trace st1 @ [Store k]\<rparr>"
    have sto: "store_f32 i y st1 = Inr st2"
      using k "1.prems"(1) by (simp add: store_f32_def st1_def st2_def k_def)
    have l2: "length (outs st2) = length (outs st)" by (simp add: st2_def st1_def)
    have "j0 \<noteq> k" using j0(3) Inr by auto
    then have j1: "nat (i + 1) \<le> j0" using j0(1) k by (simp add: k_def)
    have "scalar_loop n xs (i + 1) st2 = Inl UndefinedConversion"
    proof (rule "1.IH"[OF True ld refl Inr sto])
      show "0 \<le> i + 1" using "1.prems"(1) by simp
      show "nat n \<le> length xs" by (rule "1.prems"(2))
      show "nat n \<le> length (outs st2)" using "1.prems"(3) by (simp add: l2)
      show "\<exists>j. nat (i + 1) \<le> j \<and> j < nat n \<and> (\<exists>e. scalar_elem (xs ! j) = Inl e)"
        using j1 j0 by blast
    qed
    then show ?thesis using True by (subst scalar_loop.simps) (simp add: ld Inr sto)
  qed
qed

text \<open>The two functions, on buffers that hold at least \<open>n\<close> elements.\<close>

lemma sse_run:
  assumes "n mod UFXR_QUANTUM = 0" "nat n \<le> length xs" "nat n \<le> length os"
  shows "\<exists>st. ufxr_sin1_2_sse n os xs = Inr st \<and> length (outs st) = length os
           \<and> (\<forall>j < nat n. outs st ! j = sse_elem (xs ! j))
           \<and> (\<forall>j \<ge> nat n. outs st ! j = os ! j)"
proof -
  have "\<exists>st'. sse_loop n xs 0 \<lparr>outs = os, trace = []\<rparr> = Inr st'
           \<and> length (outs st') = length (outs \<lparr>outs = os, trace = []\<rparr>)
           \<and> (\<forall>j. nat 0 \<le> j \<and> j < nat n \<longrightarrow> outs st' ! j = sse_elem (xs ! j))
           \<and> (\<forall>j. j < nat 0 \<or> nat n \<le> j \<longrightarrow> outs st' ! j = outs \<lparr>outs = os, trace = []\<rparr> ! j)"
    using assms by (intro sse_loop_run) (simp_all add: UFXR_QUANTUM_def)
  then show ?thesis using assms(1) by (simp add: ufxr_sin1_2_sse_def)
qed

lemma scalar_run:
  assumes "n mod UFXR_QUANTUM = 0" "nat n \<le> length xs" "nat n \<le> length os"
    "\<forall>j < nat n. \<exists>y. scalar_elem (xs ! j) = Inr y"
  shows "\<exists>st. ufxr_sin1_2_scalar n os xs = Inr st \<and> length (outs st) = length os
           \<and> (\<forall>j < nat n. scalar_elem (xs ! j) = Inr (outs st ! j))
           \<and> (\<forall>j \<ge> nat n. outs st ! j = os ! j)"
proof -
  have "\<exists>st'. scalar_loop n xs 0 \<lparr>outs = os, trace = []\<rparr> = Inr st'
           \<and> length (outs st') = length (outs \<lparr>outs = os, trace = []\<rparr>)
           \<and> (\<forall>j. nat 0 \<le> j \<and> j < nat n \<longrightarrow> scalar_elem (xs ! j) = Inr (outs st' ! j))
           \<and> (\<forall>j. j < nat 0 \<or> nat n \<le> j \<longrightarrow> outs st' ! j = outs \<lparr>outs = os, trace = []\<rparr> ! j)"
    using assms by (intro scalar_loop_run) simp_all
  then show ?thesis using assms(1) by (simp add: ufxr_sin1_2_scalar_def)
qed

lemma scalar_run_fail:
  assumes "n mod UFXR_QUANTUM = 0" "nat n \<le> length xs" "nat n \<le> length os"
    "\<exists>j < nat n. \<exists>e. scalar_elem (xs ! j) = Inl e"
  shows "ufxr_sin1_2_scalar n os xs = Inl UndefinedConversion"
proof -
  have "scalar_loop n xs 0 \<lparr>outs = os, trace = []\<rparr> = Inl UndefinedConversion"
    using assms by (intro scalar_loop_fail) auto
  then show ?thesis using assms(1) by (simp add: ufxr_sin1_2_scalar_def)
qed

section \<open>The error registry\<close>

text \<open>C8: every code of the closed set \<open>ERR_OK, ERR_NOMEM, ERR_LARGETEXT\<close> has a name and a
  text, both non-empty; no two codes share a name or a text; the strings of \<open>ERR_OK\<close> say
  that there is no error; and the name of \<open>ERR_LARGETEXT\<close> is \<open>LARGETEXT\<close>.\<close>

theorem error_registry_total:
  "(\<forall>c \<in> set error_codes. \<exists>nm tx.
       ufxr_errname c = Some nm \<and> nm \<noteq> [] \<and> ufxr_errtext c = Some tx \<and> tx \<noteq> [])
   \<and> inj_on ufxr_errname (set error_codes) \<and> inj_on ufxr_errtext (set error_codes)
   \<and> ufxr_errname ERR_OK = Some ''OK'' \<and> ufxr_errtext ERR_OK = Some ''No error.''
   \<and> ufxr_errname ERR_LARGETEXT = Some ''LARGETEXT''"
  by (simp add: error_codes_def ufxr_errname_def ufxr_errtext_def
      ERR_OK_def ERR_NOMEM_def ERR_LARGETEXT_def)

theorem error_registry_total_witness:
  "ERR_NOMEM \<in> set error_codes
   \<and> (\<exists>nm tx. ufxr_errname ERR_NOMEM = Some nm \<and> nm \<noteq> [] \<and> ufxr_errtext ERR_NOMEM = Some tx \<and> tx \<noteq> [])"
proof -
  have m: "ERR_NOMEM \<in> set error_codes"
    by (simp add: error_codes_def)
  from error_registry_total have
    "\<forall>c \<in> set error_codes. \<exists>nm tx.
       ufxr_errname c = Some nm \<and> nm \<noteq> [] \<and> ufxr_errtext c = Some tx \<and> tx \<noteq> []"
    by (rule conjunct1)
  with m show ?thesis
    by blast
qed

section \<open>The kernel on concrete batches\<close>

text \<open>C1: with \<open>n = 4\<close> and the input batch \<open>[0.0, 0.25, 0.5, -0.25]\<close>, both the SSE2 version
  and the scalar version leave \<open>[0.0, 1.0, 0.0, -1.0]\<close> in the output buffer, whatever it
  held before. The outputs are the same bit patterns in both versions.\<close>

theorem exemplar_batch:
  "ufxr_sin1_2_sse 4 [a, b, c, d]
      [f32_lit False 0 0, f32_lit False 1 (- 2), f32_lit False 1 (- 1), f32_lit True 1 (- 2)]
    = Inr \<lparr>outs = [f32_lit False 0 0, f32_lit False 1 0, f32_lit False 0 0, f32_lit True 1 0],
           trace = [Load 0, Load 1, Load 2, Load 3, Store 0, Store 1, Store 2, Store 3]\<rparr>
   \<and> ufxr_sin1_2_scalar 4 [a, b, c, d]
      [f32_lit False 0 0, f32_lit False 1 (- 2), f32_lit False 1 (- 1), f32_lit True 1 (- 2)]
    = Inr \<lparr>outs = [f32_lit False 0 0, f32_lit False 1 0, f32_lit False 0 0, f32_lit True 1 0],
           trace = [Load 0, Store 0, Load 1, Store 1, Load 2, Store 2, Load 3, Store 3]\<rparr>"
  by code_simp

text \<open>C9: a call with \<open>n = 0\<close> passes the assertion on the quantum, and in both versions
  it returns the output buffer as it was, having loaded and stored nothing.\<close>

theorem zero_length_noop:
  "0 mod UFXR_QUANTUM = 0
   \<and> ufxr_sin1_2_sse 0 os xs = Inr \<lparr>outs = os, trace = []\<rparr>
   \<and> ufxr_sin1_2_scalar 0 os xs = Inr \<lparr>outs = os, trace = []\<rparr>"
  by (simp add: ufxr_sin1_2_sse_def ufxr_sin1_2_scalar_def UFXR_QUANTUM_def
      sse_loop.simps[of 0] scalar_loop.simps[of 0])

section \<open>The kernel on whole batches\<close>

subsection \<open>Batches of four\<close>

lemma all_lt4: "(\<forall>j < nat 4. P j) = (P 0 \<and> P 1 \<and> P 2 \<and> P (3::nat))"
proof -
  have "\<And>j::nat. (j < 4) = (j = 0 \<or> j = 1 \<or> j = 2 \<or> j = 3)" by auto
  then show ?thesis by auto
qed

lemma batch4: "batch_ok 4 [a, b, c, d] [x, y, z, w]"
  by (simp add: batch_ok_def UFXR_QUANTUM_def)

lemma in_range_0: "in_range 0" and in_range_mq: "in_range 0xBE800000"
  by (simp_all add: in_range_def finite32_def val_def dec_consts)

lemma exemplar_in_range: "\<forall>j < nat 4. in_range ([0, 0x3E800000, 0x3F000000, 0xBE800000] ! j)"
  unfolding all_lt4 using in_range_0 in_range_quarter in_range_half in_range_mq by simp

lemma periodic_pairs:
  "\<forall>j < nat 4. in_range ([0, 0x3E800000, 0x3F000000, 0xBE800000] ! j)
      \<and> in_range ([0, 0x3E800000, 0x3FC00000, 0xBE800000] ! j)
      \<and> (\<exists>k. val ([0, 0x3E800000, 0x3FC00000, 0xBE800000] ! j)
               = val ([0, 0x3E800000, 0x3F000000, 0xBE800000] ! j) + of_int k)"
proof -
  have "\<exists>k::int. (3::real) / 2 = 1 / 2 + of_int k" by (rule exI[of _ 1]) simp
  moreover have "\<And>r::real. \<exists>k::int. r = r + of_int k" by (rule exI[of _ 0]) simp
  ultimately show ?thesis
    unfolding all_lt4 using in_range_0 in_range_quarter in_range_half in_range_mq in_range_3h
    by (simp add: val_consts)
qed

lemma batch_ok_neg: "batch_ok n os xs \<Longrightarrow> batch_ok n os (map f32_neg xs)"
  by (simp add: batch_ok_def)

lemma sym_range_consts: "sym_range 0" "sym_range 0x3F000000" "sym_range 0xBE800000"
  by (simp_all add: sym_range_def finite32_def val_def dec_consts)

lemma exemplar_sym_range: "\<forall>j < nat 4. sym_range ([0, 0x3E800000, 0x3F000000, 0xBE800000] ! j)"
  unfolding all_lt4 using sym_range_consts sym_range_quarter by simp

lemma boundary_batch:
  "sse_reduce_lane 0x3F000000 = 0x3F000000" "sse_reduce_lane 0xBF000000 = 0xBF000000"
  "sse_reduce_lane 0x3FC00000 = 0xBF000000"
  "scalar_reduce 0x3F000000 = Inr 0x3F000000" "scalar_reduce 0xBF000000 = Inr 0xBF000000"
  "scalar_reduce 0x3FC00000 = Inr 0x3F000000"
  by code_simp+

lemma boundary_mixed_sym_range:
  "\<forall>j < nat 4. (sym_range ([0, 0x3E800000, 0x3F000000, 0xBF000000] ! j)
       \<or> (\<exists>r. scalar_reduce ([0, 0x3E800000, 0x3F000000, 0xBF000000] ! j) = Inr r \<and> \<bar>val r\<bar> = 1 / 2))
     \<and> sym_range ([0, 0x3E800000, 0x3F000000, 0xBF000000] ! j)"
  unfolding all_lt4 by (simp add: sym_range_def fin_consts val_consts)

subsection \<open>Phase reduction\<close>

text \<open>C2 (as the code has it): for a finite input \<open>x\<close> with \<open>-2^31 \<le> x < 2^31\<close>, every lane
  of the SSE2 reduction \<open>x - cvtepi32_ps (cvtps_epi32 x)\<close> is exactly \<open>x\<close> minus \<open>x\<close> rounded to
  the nearest integer, ties to even, and lies in \<open>[-1/2, 1/2]\<close>, both ends included. The scalar
  reduction \<open>x - (float)(int)x\<close> is exactly \<open>x\<close> minus \<open>x\<close> truncated towards zero and lies in
  \<open>(-1, 1)\<close>; its two folds then bring it into \<open>[-1/2, 1/2]\<close>. The two versions do not round
  by the same rule.\<close>

theorem phase_reduction:
  "i < 4 \<Longrightarrow> in_range (lane i v) \<Longrightarrow> in_range x \<Longrightarrow>
     finite32 (lane i (sse_reduce v))
     \<and> val (lane i (sse_reduce v)) = val (lane i v) - of_int (round_half_even (val (lane i v)))
     \<and> \<bar>val (lane i (sse_reduce v))\<bar> \<le> 1 / 2
     \<and> (\<exists>y. scalar_reduce x = Inr y \<and> finite32 y
            \<and> val y = val x - of_int (trunc_real (val x)) \<and> \<bar>val y\<bar> < 1
            \<and> finite32 (scalar_fold y) \<and> val (scalar_fold y) = fold_real (val y)
            \<and> \<bar>val (scalar_fold y)\<bar> \<le> 1 / 2)"
proof -
  assume i: "i < 4" and r: "in_range (lane i v)" and rx: "in_range x"
  note l = lane_sse_reduce[OF i, of v]
  from phase_reduction_elem[OF r] have a: "finite32 (lane i (sse_reduce v))
     \<and> val (lane i (sse_reduce v)) = val (lane i v) - of_int (round_half_even (val (lane i v)))
     \<and> \<bar>val (lane i (sse_reduce v))\<bar> \<le> 1 / 2"
    unfolding l by blast
  from phase_reduction_elem[OF rx] have "\<exists>y. scalar_reduce x = Inr y \<and> finite32 y
            \<and> val y = val x - of_int (trunc_real (val x)) \<and> \<bar>val y\<bar> < 1
            \<and> finite32 (scalar_fold y) \<and> val (scalar_fold y) = fold_real (val y)
            \<and> \<bar>val (scalar_fold y)\<bar> \<le> 1 / 2"
    by blast
  with a show ?thesis by blast
qed

theorem phase_reduction_witness:
  "(2::nat) < 4 \<and> in_range (lane 2 (M128 0 0 0x3F400000 0)) \<and> in_range 0x3F400000
   \<and> val (lane 2 (M128 0 0 0x3F400000 0)) = 3 / 4 \<and> round_half_even (3 / 4) = 1
   \<and> val (lane 2 (sse_reduce (M128 0 0 0x3F400000 0))) = - (1 / 4)
   \<and> trunc_real (3 / 4) = 0
   \<and> (\<exists>y. scalar_reduce 0x3F400000 = Inr y \<and> val y = 3 / 4
        \<and> val (scalar_fold y) = fold_real (3 / 4) \<and> \<bar>val (scalar_fold y)\<bar> \<le> 1 / 2)"
proof -
  have l: "lane 2 (M128 0 0 0x3F400000 0) = 0x3F400000" by simp
  have r: "round_half_even (3 / 4) = 1" "trunc_real (3 / 4) = 0"
    by (simp_all add: round_half_even_def trunc_real_def)
  have v: "val (lane 2 (M128 0 0 0x3F400000 0)) = 3 / 4" by (simp add: val_consts)
  have i: "in_range (lane 2 (M128 0 0 0x3F400000 0))" using in_range_3q by simp
  from phase_reduction[of 2 "M128 0 0 0x3F400000 0" "0x3F400000", OF _ i in_range_3q]
  obtain y where y: "val (lane 2 (sse_reduce (M128 0 0 0x3F400000 0)))
       = val (lane 2 (M128 0 0 0x3F400000 0))
         - of_int (round_half_even (val (lane 2 (M128 0 0 0x3F400000 0))))"
    "scalar_reduce 0x3F400000 = Inr y"
    "val y = val 0x3F400000 - of_int (trunc_real (val 0x3F400000))"
    "val (scalar_fold y) = fold_real (val y)" "\<bar>val (scalar_fold y)\<bar> \<le> 1 / 2"
    by auto
  have y1: "val (lane 2 (sse_reduce (M128 0 0 0x3F400000 0))) = - (1 / 4)"
    unfolding y(1) v r by simp
  have y3: "val y = 3 / 4" unfolding y(3) val_consts r by simp
  have "\<exists>y. scalar_reduce 0x3F400000 = Inr y \<and> val y = 3 / 4
        \<and> val (scalar_fold y) = fold_real (3 / 4) \<and> \<bar>val (scalar_fold y)\<bar> \<le> 1 / 2"
    using y(2,4,5) y3 by auto
  then show ?thesis using i in_range_3q v r y1 by simp
qed

theorem phase_reduction_counterexample:
  "in_range 0x3F400000 \<and> val 0x3F400000 = 3 / 4
   \<and> lane 0 (sse_reduce (M128 0x3F400000 0 0 0)) = 0xBE800000 \<and> val 0xBE800000 = - (1 / 4)
   \<and> scalar_reduce 0x3F400000 = Inr 0x3F400000
   \<and> in_range 0x3EC00000 \<and> val 0x3EC00000 = 3 / 8
   \<and> lane 0 (sse_reduce (M128 0x3EC00000 0 0 0)) = 0x3EC00000
   \<and> scalar_reduce 0x3EC00000 = Inr 0x3EC00000
   \<and> scalar_fold 0x3EC00000 = 0x3E000000 \<and> val 0x3E000000 = 1 / 8
   \<and> in_range 0xBF000000 \<and> val 0xBF000000 = - (1 / 2)
   \<and> lane 0 (sse_reduce (M128 0xBF000000 0 0 0)) = 0xBF000000"
proof -
  have d: "decode 0x3EC00000 = Fin False 12582912 (- 25)" "decode 0x3E000000 = Fin False 8388608 (- 26)"
    by code_simp+
  have e: "lane 0 (sse_reduce (M128 0x3F400000 0 0 0)) = 0xBE800000"
    "scalar_reduce 0x3F400000 = Inr 0x3F400000"
    "lane 0 (sse_reduce (M128 0x3EC00000 0 0 0)) = 0x3EC00000"
    "scalar_reduce 0x3EC00000 = Inr 0x3EC00000"
    "scalar_fold 0x3EC00000 = 0x3E000000"
    "lane 0 (sse_reduce (M128 0xBF000000 0 0 0)) = 0xBF000000"
    by code_simp+
  have v: "val 0x3EC00000 = 3 / 8" "val 0x3E000000 = 1 / 8"
    by (simp_all add: val_def d)
  have i: "in_range 0x3EC00000" "in_range 0xBF000000"
    by (simp_all add: in_range_def finite32_def v d dec_consts val_consts)
  show ?thesis using e v i in_range_3q by (simp add: val_consts)
qed

subsection \<open>Agreement of the two versions\<close>

text \<open>C3 (for inputs in the range of \<open>int\<close>): on a batch whose elements are all finite with
  \<open>-2^31 \<le> x < 2^31\<close>, the SSE2 version and the scalar version both return, all their outputs
  are finite, and at every index the output of one differs from the output of the other by
  at most \<open>1e-6\<close>.\<close>

theorem versions_agree:
  "batch_ok n os xs \<Longrightarrow> batch_ok n os' xs \<Longrightarrow> \<forall>j < nat n. in_range (xs ! j) \<Longrightarrow>
     \<exists>st st'. ufxr_sin1_2_sse n os xs = Inr st \<and> ufxr_sin1_2_scalar n os' xs = Inr st'
       \<and> (\<forall>j < nat n. finite32 (outs st ! j) \<and> finite32 (outs st' ! j)
              \<and> \<bar>val (outs st ! j) - val (outs st' ! j)\<bar> \<le> 1 / 10 ^ 6)"
proof -
  assume b: "batch_ok n os xs" and b': "batch_ok n os' xs" and r: "\<forall>j < nat n. in_range (xs ! j)"
  from b b' have c: "n mod UFXR_QUANTUM = 0" "nat n \<le> length xs" "nat n \<le> length os" "nat n \<le> length os'"
    by (simp_all add: batch_ok_def)
  from sse_run[OF c(1,2,3)] obtain st where st: "ufxr_sin1_2_sse n os xs = Inr st"
    "\<forall>j < nat n. outs st ! j = sse_elem (xs ! j)" by blast
  have "\<forall>j < nat n. \<exists>y. scalar_elem (xs ! j) = Inr y" using r versions_agree_elem by blast
  from scalar_run[OF c(1,2,4) this] obtain st' where st': "ufxr_sin1_2_scalar n os' xs = Inr st'"
    "\<forall>j < nat n. scalar_elem (xs ! j) = Inr (outs st' ! j)" by blast
  have "\<forall>j < nat n. finite32 (outs st ! j) \<and> finite32 (outs st' ! j)
              \<and> \<bar>val (outs st ! j) - val (outs st' ! j)\<bar> \<le> 1 / 10 ^ 6"
  proof (intro allI impI)
    fix j assume j: "j < nat n"
    from versions_agree_elem[of "xs ! j"] r j obtain y where "finite32 (sse_elem (xs ! j))"
      "scalar_elem (xs ! j) = Inr y" "finite32 y" "\<bar>val (sse_elem (xs ! j)) - val y\<bar> \<le> 1 / 10 ^ 6"
      by blast
    then show "finite32 (outs st ! j) \<and> finite32 (outs st' ! j)
              \<and> \<bar>val (outs st ! j) - val (outs st' ! j)\<bar> \<le> 1 / 10 ^ 6"
      using st(2) st'(2) j by simp
  qed
  then show ?thesis using st(1) st'(1) by blast
qed

theorem versions_agree_witness:
  "batch_ok 4 [0, 0, 0, 0] [0, 0x3E800000, 0x3F000000, 0xBE800000]
   \<and> in_range 0 \<and> in_range 0x3E800000 \<and> in_range 0x3F000000 \<and> in_range 0xBE800000
   \<and> (\<exists>st st'. ufxr_sin1_2_sse 4 [0, 0, 0, 0] [0, 0x3E800000, 0x3F000000, 0xBE800000] = Inr st
        \<and> ufxr_sin1_2_scalar 4 [0, 0, 0, 0] [0, 0x3E800000, 0x3F000000, 0xBE800000] = Inr st'
        \<and> \<bar>val (outs st ! 2) - val (outs st' ! 2)\<bar> \<le> 1 / 10 ^ 6)"
  using versions_agree[OF batch4 batch4 exemplar_in_range, of 0 0 0 0 0 0 0 0]
    batch4[of 0 0 0 0 0 "0x3E800000" "0x3F000000" "0xBE800000"]
    in_range_0 in_range_quarter in_range_half in_range_mq
  unfolding all_lt4 by blast

theorem versions_agree_counterexample:
  "batch_ok 4 [0, 0, 0, 0] [0x4F000000, 0, 0, 0]
   \<and> finite32 0x4F000000 \<and> val 0x4F000000 = 2 ^ 31
   \<and> ufxr_sin1_2_scalar 4 [0, 0, 0, 0] [0x4F000000, 0, 0, 0] = Inl UndefinedConversion
   \<and> ufxr_sin1_2_sse 4 [0, 0, 0, 0] [0x4F000000, 0, 0, 0]
       = Inr \<lparr>outs = [0xE1800000, 0, 0, 0],
              trace = [Load 0, Load 1, Load 2, Load 3, Store 0, Store 1, Store 2, Store 3]\<rparr>"
proof -
  have "ufxr_sin1_2_scalar 4 [0, 0, 0, 0] [0x4F000000, 0, 0, 0] = Inl UndefinedConversion"
    "ufxr_sin1_2_sse 4 [0, 0, 0, 0] [0x4F000000, 0, 0, 0]
       = Inr \<lparr>outs = [0xE1800000, 0, 0, 0],
              trace = [Load 0, Load 1, Load 2, Load 3, Store 0, Store 1, Store 2, Store 3]\<rparr>"
    by code_simp+
  then show ?thesis using batch4 by (simp add: fin_consts val_consts)
qed

subsection \<open>Periodicity\<close>

text \<open>C4 (for inputs in the range of \<open>int\<close>, equality of floating-point values): when the
  elements of two batches are finite, lie in \<open>[-2^31, 2^31)\<close>, and differ index by index by an
  integer, each version returns on both batches and at every index its two outputs compare
  equal with \<open>==\<close>. The bit patterns can differ, by the sign of a zero.\<close>

theorem periodicity:
  "batch_ok n os xs \<Longrightarrow> batch_ok n os' ys \<Longrightarrow>
   \<forall>j < nat n. in_range (xs ! j) \<and> in_range (ys ! j)
       \<and> (\<exists>k. val (ys ! j) = val (xs ! j) + of_int k) \<Longrightarrow>
     (\<exists>st st'. ufxr_sin1_2_sse n os xs = Inr st \<and> ufxr_sin1_2_sse n os' ys = Inr st'
        \<and> (\<forall>j < nat n. f32_eq (outs st ! j) (outs st' ! j)))
     \<and> (\<exists>st st'. ufxr_sin1_2_scalar n os xs = Inr st \<and> ufxr_sin1_2_scalar n os' ys = Inr st'
        \<and> (\<forall>j < nat n. f32_eq (outs st ! j) (outs st' ! j)))"
proof -
  assume b: "batch_ok n os xs" and b': "batch_ok n os' ys"
    and r: "\<forall>j < nat n. in_range (xs ! j) \<and> in_range (ys ! j)
       \<and> (\<exists>k. val (ys ! j) = val (xs ! j) + of_int k)"
  from b b' have c: "n mod UFXR_QUANTUM = 0" "nat n \<le> length xs" "nat n \<le> length os"
    "nat n \<le> length ys" "nat n \<le> length os'"
    by (simp_all add: batch_ok_def)
  have e: "f32_eq (sse_elem (xs ! j)) (sse_elem (ys ! j))
     \<and> (\<exists>u v. scalar_elem (xs ! j) = Inr u \<and> scalar_elem (ys ! j) = Inr v \<and> f32_eq u v)"
    if "j < nat n" for j
    using r that periodicity_elem[of "xs ! j" "ys ! j"] by blast
  from sse_run[OF c(1,2,3)] obtain s1 where s1: "ufxr_sin1_2_sse n os xs = Inr s1"
    "\<forall>j < nat n. outs s1 ! j = sse_elem (xs ! j)" by blast
  from sse_run[OF c(1,4,5)] obtain s2 where s2: "ufxr_sin1_2_sse n os' ys = Inr s2"
    "\<forall>j < nat n. outs s2 ! j = sse_elem (ys ! j)" by blast
  have a: "\<forall>j < nat n. f32_eq (outs s1 ! j) (outs s2 ! j)" using e s1(2) s2(2) by simp
  have "\<forall>j < nat n. \<exists>y. scalar_elem (xs ! j) = Inr y" using e by blast
  from scalar_run[OF c(1,2,3) this] obtain t1 where t1: "ufxr_sin1_2_scalar n os xs = Inr t1"
    "\<forall>j < nat n. scalar_elem (xs ! j) = Inr (outs t1 ! j)" by blast
  have "\<forall>j < nat n. \<exists>y. scalar_elem (ys ! j) = Inr y" using e by blast
  from scalar_run[OF c(1,4,5) this] obtain t2 where t2: "ufxr_sin1_2_scalar n os' ys = Inr t2"
    "\<forall>j < nat n. scalar_elem (ys ! j) = Inr (outs t2 ! j)" by blast
  have "\<forall>j < nat n. f32_eq (outs t1 ! j) (outs t2 ! j)"
  proof (intro allI impI)
    fix j assume j: "j < nat n"
    from e[OF j] obtain u v where "scalar_elem (xs ! j) = Inr u" "scalar_elem (ys ! j) = Inr v" "f32_eq u v"
      by blast
    then show "f32_eq (outs t1 ! j) (outs t2 ! j)" using t1(2) t2(2) j by simp
  qed
  then show ?thesis using s1(1) s2(1) a t1(1) t2(1) by blast
qed

theorem periodicity_witness:
  "batch_ok 4 [0, 0, 0, 0] [0, 0x3E800000, 0x3F000000, 0xBE800000]
   \<and> batch_ok 4 [0, 0, 0, 0] [0, 0x3E800000, 0x3FC00000, 0xBE800000]
   \<and> in_range 0x3F000000 \<and> in_range 0x3FC00000 \<and> val 0x3FC00000 = val 0x3F000000 + of_int 1
   \<and> (\<exists>st st'. ufxr_sin1_2_sse 4 [0, 0, 0, 0] [0, 0x3E800000, 0x3F000000, 0xBE800000] = Inr st
        \<and> ufxr_sin1_2_sse 4 [0, 0, 0, 0] [0, 0x3E800000, 0x3FC00000, 0xBE800000] = Inr st'
        \<and> f32_eq (outs st ! 2) (outs st' ! 2))
   \<and> (\<exists>st st'. ufxr_sin1_2_scalar 4 [0, 0, 0, 0] [0, 0x3E800000, 0x3F000000, 0xBE800000] = Inr st
        \<and> ufxr_sin1_2_scalar 4 [0, 0, 0, 0] [0, 0x3E800000, 0x3FC00000, 0xBE800000] = Inr st'
        \<and> f32_eq (outs st ! 2) (outs st' ! 2))"
proof -
  have d: "val 0x3FC00000 = val 0x3F000000 + of_int 1" by (simp add: val_consts)
  from periodicity[OF batch4 batch4 periodic_pairs, of 0 0 0 0 0 0 0 0]
  show ?thesis
    using batch4[of 0 0 0 0 0] in_range_half in_range_3h d unfolding all_lt4 by blast
qed

theorem periodicity_counterexample:
  "val 0x3FC00000 = val 0x3F000000 + 1
   \<and> (\<exists>t. ufxr_sin1_2_sse 4 [0, 0, 0, 0] [0x3F000000, 0, 0, 0] = Inr \<lparr>outs = [0x00000000, 0, 0, 0], trace = t\<rparr>)
   \<and> (\<exists>t. ufxr_sin1_2_sse 4 [0, 0, 0, 0] [0x3FC00000, 0, 0, 0] = Inr \<lparr>outs = [0x80000000, 0, 0, 0], trace = t\<rparr>)
   \<and> (0x00000000 :: f32) \<noteq> 0x80000000
   \<and> val 0x4F000000 = val 0x4EFFFFFF + 128
   \<and> (\<exists>t. ufxr_sin1_2_sse 4 [0, 0, 0, 0] [0x4EFFFFFF, 0, 0, 0] = Inr \<lparr>outs = [0, 0, 0, 0], trace = t\<rparr>)
   \<and> (\<exists>t. ufxr_sin1_2_sse 4 [0, 0, 0, 0] [0x4F000000, 0, 0, 0] = Inr \<lparr>outs = [0xE1800000, 0, 0, 0], trace = t\<rparr>)
   \<and> val 0xE1800000 = - (2 ^ 68)
   \<and> ufxr_sin1_2_scalar 4 [0, 0, 0, 0] [0x4F000000, 0, 0, 0] = Inl UndefinedConversion"
proof -
  have "ufxr_sin1_2_sse 4 [0, 0, 0, 0] [0x3F000000, 0, 0, 0] = Inr \<lparr>outs = [0x00000000, 0, 0, 0],
      trace = [Load 0, Load 1, Load 2, Load 3, Store 0, Store 1, Store 2, Store 3]\<rparr>"
    "ufxr_sin1_2_sse 4 [0, 0, 0, 0] [0x3FC00000, 0, 0, 0] = Inr \<lparr>outs = [0x80000000, 0, 0, 0],
      trace = [Load 0, Load 1, Load 2, Load 3, Store 0, Store 1, Store 2, Store 3]\<rparr>"
    "ufxr_sin1_2_sse 4 [0, 0, 0, 0] [0x4EFFFFFF, 0, 0, 0] = Inr \<lparr>outs = [0, 0, 0, 0],
      trace = [Load 0, Load 1, Load 2, Load 3, Store 0, Store 1, Store 2, Store 3]\<rparr>"
    "ufxr_sin1_2_sse 4 [0, 0, 0, 0] [0x4F000000, 0, 0, 0] = Inr \<lparr>outs = [0xE1800000, 0, 0, 0],
      trace = [Load 0, Load 1, Load 2, Load 3, Store 0, Store 1, Store 2, Store 3]\<rparr>"
    "ufxr_sin1_2_scalar 4 [0, 0, 0, 0] [0x4F000000, 0, 0, 0] = Inl UndefinedConversion"
    by code_simp+
  then show ?thesis by (simp add: val_consts)
qed

subsection \<open>Odd symmetry\<close>

text \<open>C5 (for inputs of magnitude below \<open>2^31\<close>): on a batch whose elements are all finite with
  \<open>\<bar>x\<bar> < 2^31\<close>, each version returns on the batch and on the batch of the negated elements,
  and at every index where the phase-reduced value has a magnitude other than \<open>1/2\<close> the output
  for \<open>-x\<close> compares equal to the negated output for \<open>x\<close>.\<close>

theorem odd_symmetry:
  "batch_ok n os xs \<Longrightarrow> \<forall>j < nat n. sym_range (xs ! j) \<Longrightarrow>
     (\<exists>st st'. ufxr_sin1_2_sse n os xs = Inr st \<and> ufxr_sin1_2_sse n os (map f32_neg xs) = Inr st'
        \<and> (\<forall>j < nat n. \<bar>val (sse_reduce_lane (xs ! j))\<bar> \<noteq> 1 / 2 \<longrightarrow>
               f32_eq (outs st' ! j) (f32_neg (outs st ! j))))
     \<and> (\<exists>st st'. ufxr_sin1_2_scalar n os xs = Inr st
        \<and> ufxr_sin1_2_scalar n os (map f32_neg xs) = Inr st'
        \<and> (\<forall>j < nat n. \<forall>r. scalar_reduce (xs ! j) = Inr r \<and> \<bar>val r\<bar> \<noteq> 1 / 2 \<longrightarrow>
               f32_eq (outs st' ! j) (f32_neg (outs st ! j))))"
proof -
  assume b: "batch_ok n os xs" and r: "\<forall>j < nat n. sym_range (xs ! j)"
  from b have c: "n mod UFXR_QUANTUM = 0" "nat n \<le> length xs" "nat n \<le> length os"
    "nat n \<le> length (map f32_neg xs)"
    by (simp_all add: batch_ok_def)
  have nth: "map f32_neg xs ! j = f32_neg (xs ! j)" if "j < nat n" for j
    using that c(2) by simp
  from sse_run[OF c(1,2,3)] obtain s1 where s1: "ufxr_sin1_2_sse n os xs = Inr s1"
    "\<forall>j < nat n. outs s1 ! j = sse_elem (xs ! j)" by blast
  from sse_run[OF c(1,4,3)] obtain s2 where s2: "ufxr_sin1_2_sse n os (map f32_neg xs) = Inr s2"
    "\<forall>j < nat n. outs s2 ! j = sse_elem (map f32_neg xs ! j)" by blast
  have a: "\<forall>j < nat n. \<bar>val (sse_reduce_lane (xs ! j))\<bar> \<noteq> 1 / 2 \<longrightarrow>
               f32_eq (outs s2 ! j) (f32_neg (outs s1 ! j))"
    using odd_symmetry_elem r s1(2) s2(2) nth by simp
  have e: "\<exists>q u v. scalar_reduce (xs ! j) = Inr q \<and> scalar_elem (xs ! j) = Inr u
      \<and> scalar_elem (f32_neg (xs ! j)) = Inr v \<and> (\<bar>val q\<bar> \<noteq> 1 / 2 \<longrightarrow> f32_eq v (f32_neg u))"
    if "j < nat n" for j
    using odd_symmetry_elem[of "xs ! j"] r that by blast
  have "\<forall>j < nat n. \<exists>y. scalar_elem (xs ! j) = Inr y" using e by blast
  from scalar_run[OF c(1,2,3) this] obtain t1 where t1: "ufxr_sin1_2_scalar n os xs = Inr t1"
    "\<forall>j < nat n. scalar_elem (xs ! j) = Inr (outs t1 ! j)" by blast
  have "\<forall>j < nat n. \<exists>y. scalar_elem (map f32_neg xs ! j) = Inr y" using e nth by auto
  from scalar_run[OF c(1,4,3) this] obtain t2 where t2: "ufxr_sin1_2_scalar n os (map f32_neg xs) = Inr t2"
    "\<forall>j < nat n. scalar_elem (map f32_neg xs ! j) = Inr (outs t2 ! j)" by blast
  have "\<forall>j < nat n. \<forall>q. scalar_reduce (xs ! j) = Inr q \<and> \<bar>val q\<bar> \<noteq> 1 / 2 \<longrightarrow>
               f32_eq (outs t2 ! j) (f32_neg (outs t1 ! j))"
  proof (intro allI impI)
    fix j q assume j: "j < nat n" and q: "scalar_reduce (xs ! j) = Inr q \<and> \<bar>val q\<bar> \<noteq> 1 / 2"
    from e[OF j] q obtain u v where "scalar_elem (xs ! j) = Inr u"
      "scalar_elem (f32_neg (xs ! j)) = Inr v" "f32_eq v (f32_neg u)" by auto
    then show "f32_eq (outs t2 ! j) (f32_neg (outs t1 ! j))" using t1(2) t2(2) nth j by simp
  qed
  then show ?thesis using s1(1) s2(1) a t1(1) t2(1) by blast
qed

theorem odd_symmetry_witness:
  "batch_ok 4 [0, 0, 0, 0] [0, 0x3E800000, 0x3F000000, 0xBE800000]
   \<and> sym_range 0 \<and> sym_range 0x3E800000 \<and> sym_range 0x3F000000 \<and> sym_range 0xBE800000
   \<and> \<bar>val (sse_reduce_lane 0x3E800000)\<bar> \<noteq> 1 / 2
   \<and> (\<exists>st st'. ufxr_sin1_2_sse 4 [0, 0, 0, 0] [0, 0x3E800000, 0x3F000000, 0xBE800000] = Inr st
        \<and> ufxr_sin1_2_sse 4 [0, 0, 0, 0] (map f32_neg [0, 0x3E800000, 0x3F000000, 0xBE800000]) = Inr st'
        \<and> f32_eq (outs st' ! 1) (f32_neg (outs st ! 1)))
   \<and> scalar_reduce 0x3E800000 = Inr 0x3E800000 \<and> \<bar>val 0x3E800000\<bar> \<noteq> 1 / 2
   \<and> (\<exists>st st'. ufxr_sin1_2_scalar 4 [0, 0, 0, 0] [0, 0x3E800000, 0x3F000000, 0xBE800000] = Inr st
        \<and> ufxr_sin1_2_scalar 4 [0, 0, 0, 0] (map f32_neg [0, 0x3E800000, 0x3F000000, 0xBE800000]) = Inr st'
        \<and> f32_eq (outs st' ! 1) (f32_neg (outs st ! 1)))"
proof -
  have e: "sse_reduce_lane 0x3E800000 = 0x3E800000" "scalar_reduce 0x3E800000 = Inr 0x3E800000"
    by code_simp+
  have n: "\<bar>val (sse_reduce_lane 0x3E800000)\<bar> \<noteq> 1 / 2" "\<bar>val 0x3E800000\<bar> \<noteq> 1 / 2"
    by (simp_all add: e val_consts)
  from odd_symmetry[OF batch4 exemplar_sym_range, of 0 0 0 0]
  have "(\<exists>st st'. ufxr_sin1_2_sse 4 [0, 0, 0, 0] [0, 0x3E800000, 0x3F000000, 0xBE800000] = Inr st
        \<and> ufxr_sin1_2_sse 4 [0, 0, 0, 0] (map f32_neg [0, 0x3E800000, 0x3F000000, 0xBE800000]) = Inr st'
        \<and> (\<bar>val (sse_reduce_lane 0x3E800000)\<bar> \<noteq> 1 / 2 \<longrightarrow> f32_eq (outs st' ! 1) (f32_neg (outs st ! 1))))
   \<and> (\<exists>st st'. ufxr_sin1_2_scalar 4 [0, 0, 0, 0] [0, 0x3E800000, 0x3F000000, 0xBE800000] = Inr st
        \<and> ufxr_sin1_2_scalar 4 [0, 0, 0, 0] (map f32_neg [0, 0x3E800000, 0x3F000000, 0xBE800000]) = Inr st'
        \<and> (\<forall>r. scalar_reduce 0x3E800000 = Inr r \<and> \<bar>val r\<bar> \<noteq> 1 / 2 \<longrightarrow> f32_eq (outs st' ! 1) (f32_neg (outs st ! 1))))"
    unfolding all_lt4 by (simp del: list.map) blast
  then show ?thesis
    using batch4[of 0 0 0 0 0] sym_range_consts sym_range_quarter n e by blast
qed

theorem odd_symmetry_counterexample:
  "finite32 0x4F000000 \<and> val 0x4F000000 = 2 ^ 31
   \<and> val (sse_reduce_lane 0x4F000000) = 2 ^ 32 \<and> \<bar>val (sse_reduce_lane 0x4F000000)\<bar> \<noteq> 1 / 2
   \<and> (\<exists>t. ufxr_sin1_2_sse 4 [0, 0, 0, 0] [0x4F000000, 0, 0, 0]
           = Inr \<lparr>outs = [0xE1800000, 0, 0, 0], trace = t\<rparr>)
   \<and> (\<exists>t. ufxr_sin1_2_sse 4 [0, 0, 0, 0] (map f32_neg [0x4F000000, 0, 0, 0])
           = Inr \<lparr>outs = [0, 0x80000000, 0x80000000, 0x80000000], trace = t\<rparr>)
   \<and> \<not> f32_eq 0 (f32_neg 0xE1800000)
   \<and> ufxr_sin1_2_scalar 4 [0, 0, 0, 0] [0x4F000000, 0, 0, 0] = Inl UndefinedConversion"
proof -
  have "ufxr_sin1_2_sse 4 [0, 0, 0, 0] [0x4F000000, 0, 0, 0] = Inr \<lparr>outs = [0xE1800000, 0, 0, 0],
      trace = [Load 0, Load 1, Load 2, Load 3, Store 0, Store 1, Store 2, Store 3]\<rparr>"
    "ufxr_sin1_2_sse 4 [0, 0, 0, 0] (map f32_neg [0x4F000000, 0, 0, 0])
       = Inr \<lparr>outs = [0, 0x80000000, 0x80000000, 0x80000000],
      trace = [Load 0, Load 1, Load 2, Load 3, Store 0, Store 1, Store 2, Store 3]\<rparr>"
    "ufxr_sin1_2_scalar 4 [0, 0, 0, 0] [0x4F000000, 0, 0, 0] = Inl UndefinedConversion"
    "\<not> f32_eq 0 (f32_neg 0xE1800000)"
    by code_simp+
  then show ?thesis by (simp add: eval_consts(3) fin_consts val_consts)
qed

subsection \<open>Symmetry at the boundary\<close>

text \<open>C10: at every index where the phase-reduced value of the SSE2 version has magnitude
  exactly \<open>1/2\<close>, the SSE2 outputs for \<open>x\<close> and for \<open>-x\<close> are both zero, and the output for \<open>-x\<close>
  compares equal to the negated output for \<open>x\<close>, whatever the other elements of the batch are.
  The scalar version returns on every batch whose elements are finite with \<open>\<bar>x\<bar> < 2^31\<close> and on
  its negation, and there the same holds at every index where its phase-reduced value has
  magnitude exactly \<open>1/2\<close>. A batch whose phase-reduced values all have that magnitude is such
  a batch.\<close>

theorem boundary_symmetry:
  "batch_ok n os xs \<Longrightarrow>
     (\<exists>st st'. ufxr_sin1_2_sse n os xs = Inr st \<and> ufxr_sin1_2_sse n os (map f32_neg xs) = Inr st'
        \<and> (\<forall>j < nat n. \<bar>val (sse_reduce_lane (xs ! j))\<bar> = 1 / 2 \<longrightarrow>
               finite32 (outs st ! j) \<and> val (outs st ! j) = 0
               \<and> finite32 (outs st' ! j) \<and> val (outs st' ! j) = 0
               \<and> f32_eq (outs st' ! j) (f32_neg (outs st ! j))))
     \<and> ((\<forall>j < nat n. sym_range (xs ! j)
                      \<or> (\<exists>r. scalar_reduce (xs ! j) = Inr r \<and> \<bar>val r\<bar> = 1 / 2)) \<longrightarrow>
          (\<exists>st st'. ufxr_sin1_2_scalar n os xs = Inr st
             \<and> ufxr_sin1_2_scalar n os (map f32_neg xs) = Inr st'
             \<and> (\<forall>j < nat n. \<forall>r. scalar_reduce (xs ! j) = Inr r \<and> \<bar>val r\<bar> = 1 / 2 \<longrightarrow>
                    finite32 (outs st ! j) \<and> val (outs st ! j) = 0
                    \<and> finite32 (outs st' ! j) \<and> val (outs st' ! j) = 0
                    \<and> f32_eq (outs st' ! j) (f32_neg (outs st ! j)))))"
proof (intro conjI impI)
  assume b: "batch_ok n os xs"
  then have c: "n mod UFXR_QUANTUM = 0" "nat n \<le> length xs" "nat n \<le> length os"
    "nat n \<le> length (map f32_neg xs)"
    by (simp_all add: batch_ok_def)
  have nth: "map f32_neg xs ! j = f32_neg (xs ! j)" if "j < nat n" for j
    using that c(2) by simp
  from sse_run[OF c(1,2,3)] obtain s1 where s1: "ufxr_sin1_2_sse n os xs = Inr s1"
    "\<forall>j < nat n. outs s1 ! j = sse_elem (xs ! j)" by blast
  from sse_run[OF c(1,4,3)] obtain s2 where s2: "ufxr_sin1_2_sse n os (map f32_neg xs) = Inr s2"
    "\<forall>j < nat n. outs s2 ! j = sse_elem (map f32_neg xs ! j)" by blast
  have "\<forall>j < nat n. \<bar>val (sse_reduce_lane (xs ! j))\<bar> = 1 / 2 \<longrightarrow>
               finite32 (outs s1 ! j) \<and> val (outs s1 ! j) = 0
               \<and> finite32 (outs s2 ! j) \<and> val (outs s2 ! j) = 0
               \<and> f32_eq (outs s2 ! j) (f32_neg (outs s1 ! j))"
    using boundary_symmetry_elem s1(2) s2(2) nth by simp
  then show "\<exists>st st'. ufxr_sin1_2_sse n os xs = Inr st \<and> ufxr_sin1_2_sse n os (map f32_neg xs) = Inr st'
        \<and> (\<forall>j < nat n. \<bar>val (sse_reduce_lane (xs ! j))\<bar> = 1 / 2 \<longrightarrow>
               finite32 (outs st ! j) \<and> val (outs st ! j) = 0
               \<and> finite32 (outs st' ! j) \<and> val (outs st' ! j) = 0
               \<and> f32_eq (outs st' ! j) (f32_neg (outs st ! j)))"
    using s1(1) s2(1) by blast
next
  assume b: "batch_ok n os xs"
    and h: "\<forall>j < nat n. sym_range (xs ! j)
                      \<or> (\<exists>r. scalar_reduce (xs ! j) = Inr r \<and> \<bar>val r\<bar> = 1 / 2)"
  from b have c: "n mod UFXR_QUANTUM = 0" "nat n \<le> length xs" "nat n \<le> length os"
    "nat n \<le> length (map f32_neg xs)"
    by (simp_all add: batch_ok_def)
  have nth: "map f32_neg xs ! j = f32_neg (xs ! j)" if "j < nat n" for j
    using that c(2) by simp
  have s: "sym_range (xs ! j)" if "j < nat n" for j
    using h that scalar_boundary_small[of "xs ! j"] by blast
  have d: "\<exists>u v. scalar_elem (xs ! j) = Inr u \<and> scalar_elem (f32_neg (xs ! j)) = Inr v"
    if "j < nat n" for j
    using scalar_elem_odd[OF s[OF that]] by blast
  have "\<forall>j < nat n. \<exists>y. scalar_elem (xs ! j) = Inr y" using d by blast
  from scalar_run[OF c(1,2,3) this] obtain t1 where t1: "ufxr_sin1_2_scalar n os xs = Inr t1"
    "\<forall>j < nat n. scalar_elem (xs ! j) = Inr (outs t1 ! j)" by blast
  have "\<forall>j < nat n. \<exists>y. scalar_elem (map f32_neg xs ! j) = Inr y" using d nth by auto
  from scalar_run[OF c(1,4,3) this] obtain t2 where t2: "ufxr_sin1_2_scalar n os (map f32_neg xs) = Inr t2"
    "\<forall>j < nat n. scalar_elem (map f32_neg xs ! j) = Inr (outs t2 ! j)" by blast
  have "\<forall>j < nat n. \<forall>r. scalar_reduce (xs ! j) = Inr r \<and> \<bar>val r\<bar> = 1 / 2 \<longrightarrow>
                    finite32 (outs t1 ! j) \<and> val (outs t1 ! j) = 0
                    \<and> finite32 (outs t2 ! j) \<and> val (outs t2 ! j) = 0
                    \<and> f32_eq (outs t2 ! j) (f32_neg (outs t1 ! j))"
  proof (intro allI impI)
    fix j r assume j: "j < nat n" and r: "scalar_reduce (xs ! j) = Inr r \<and> \<bar>val r\<bar> = 1 / 2"
    from boundary_symmetry_elem[of "xs ! j"] r obtain u v where "scalar_elem (xs ! j) = Inr u"
      "scalar_elem (f32_neg (xs ! j)) = Inr v"
      "finite32 u" "val u = 0" "finite32 v" "val v = 0" "f32_eq v (f32_neg u)" by blast
    then show "finite32 (outs t1 ! j) \<and> val (outs t1 ! j) = 0
                    \<and> finite32 (outs t2 ! j) \<and> val (outs t2 ! j) = 0
                    \<and> f32_eq (outs t2 ! j) (f32_neg (outs t1 ! j))"
      using t1(2) t2(2) nth j by simp
  qed
  then show "\<exists>st st'. ufxr_sin1_2_scalar n os xs = Inr st
             \<and> ufxr_sin1_2_scalar n os (map f32_neg xs) = Inr st'
             \<and> (\<forall>j < nat n. \<forall>r. scalar_reduce (xs ! j) = Inr r \<and> \<bar>val r\<bar> = 1 / 2 \<longrightarrow>
                    finite32 (outs st ! j) \<and> val (outs st ! j) = 0
                    \<and> finite32 (outs st' ! j) \<and> val (outs st' ! j) = 0
                    \<and> f32_eq (outs st' ! j) (f32_neg (outs st ! j)))"
    using t1(1) t2(1) by blast
qed

theorem boundary_symmetry_witness:
  "batch_ok 4 [0, 0, 0, 0] [0, 0x3E800000, 0x3F000000, 0xBF000000]
   \<and> sym_range 0 \<and> sym_range 0x3E800000 \<and> sym_range 0x3F000000 \<and> sym_range 0xBF000000
   \<and> val 0x3E800000 = 1 / 4 \<and> val 0x3F000000 = 1 / 2 \<and> val 0xBF000000 = - (1 / 2)
   \<and> sse_reduce_lane 0x3E800000 = 0x3E800000 \<and> scalar_reduce 0x3E800000 = Inr 0x3E800000
   \<and> \<bar>val (sse_reduce_lane 0x3F000000)\<bar> = 1 / 2 \<and> \<bar>val (sse_reduce_lane 0xBF000000)\<bar> = 1 / 2
   \<and> scalar_reduce 0x3F000000 = Inr 0x3F000000 \<and> scalar_reduce 0xBF000000 = Inr 0xBF000000
   \<and> (\<exists>st st'. ufxr_sin1_2_sse 4 [0, 0, 0, 0] [0, 0x3E800000, 0x3F000000, 0xBF000000] = Inr st
        \<and> ufxr_sin1_2_sse 4 [0, 0, 0, 0] (map f32_neg [0, 0x3E800000, 0x3F000000, 0xBF000000]) = Inr st'
        \<and> val (outs st ! 2) = 0 \<and> val (outs st' ! 2) = 0
        \<and> f32_eq (outs st' ! 2) (f32_neg (outs st ! 2))
        \<and> val (outs st ! 3) = 0 \<and> val (outs st' ! 3) = 0
        \<and> f32_eq (outs st' ! 3) (f32_neg (outs st ! 3)))
   \<and> (\<exists>st st'. ufxr_sin1_2_scalar 4 [0, 0, 0, 0] [0, 0x3E800000, 0x3F000000, 0xBF000000] = Inr st
        \<and> ufxr_sin1_2_scalar 4 [0, 0, 0, 0] (map f32_neg [0, 0x3E800000, 0x3F000000, 0xBF000000]) = Inr st'
        \<and> val (outs st ! 2) = 0 \<and> val (outs st' ! 2) = 0
        \<and> f32_eq (outs st' ! 2) (f32_neg (outs st ! 2))
        \<and> val (outs st ! 3) = 0 \<and> val (outs st' ! 3) = 0
        \<and> f32_eq (outs st' ! 3) (f32_neg (outs st ! 3)))"
proof -
  have q: "sse_reduce_lane 0x3E800000 = 0x3E800000" "scalar_reduce 0x3E800000 = Inr 0x3E800000"
    by code_simp+
  have n: "\<bar>val (sse_reduce_lane 0x3F000000)\<bar> = 1 / 2" "\<bar>val (sse_reduce_lane 0xBF000000)\<bar> = 1 / 2"
    "\<bar>val 0x3F000000\<bar> = 1 / 2" "\<bar>val 0xBF000000\<bar> = 1 / 2"
    by (simp_all add: boundary_batch val_consts)
  note t = boundary_symmetry[OF batch4, of 0 0 0 0 0 "0x3E800000" "0x3F000000" "0xBF000000"]
  from t have "\<exists>st st'. ufxr_sin1_2_sse 4 [0, 0, 0, 0] [0, 0x3E800000, 0x3F000000, 0xBF000000] = Inr st
        \<and> ufxr_sin1_2_sse 4 [0, 0, 0, 0] (map f32_neg [0, 0x3E800000, 0x3F000000, 0xBF000000]) = Inr st'
        \<and> (\<bar>val (sse_reduce_lane 0x3F000000)\<bar> = 1 / 2 \<longrightarrow>
            val (outs st ! 2) = 0 \<and> val (outs st' ! 2) = 0
            \<and> f32_eq (outs st' ! 2) (f32_neg (outs st ! 2)))
        \<and> (\<bar>val (sse_reduce_lane 0xBF000000)\<bar> = 1 / 2 \<longrightarrow>
            val (outs st ! 3) = 0 \<and> val (outs st' ! 3) = 0
            \<and> f32_eq (outs st' ! 3) (f32_neg (outs st ! 3)))"
    unfolding all_lt4 by (simp del: list.map) blast
  then have a: "\<exists>st st'. ufxr_sin1_2_sse 4 [0, 0, 0, 0] [0, 0x3E800000, 0x3F000000, 0xBF000000] = Inr st
        \<and> ufxr_sin1_2_sse 4 [0, 0, 0, 0] (map f32_neg [0, 0x3E800000, 0x3F000000, 0xBF000000]) = Inr st'
        \<and> val (outs st ! 2) = 0 \<and> val (outs st' ! 2) = 0
        \<and> f32_eq (outs st' ! 2) (f32_neg (outs st ! 2))
        \<and> val (outs st ! 3) = 0 \<and> val (outs st' ! 3) = 0
        \<and> f32_eq (outs st' ! 3) (f32_neg (outs st ! 3))"
    using n(1,2) by blast
  from t boundary_mixed_sym_range
  have "\<exists>st st'. ufxr_sin1_2_scalar 4 [0, 0, 0, 0] [0, 0x3E800000, 0x3F000000, 0xBF000000] = Inr st
             \<and> ufxr_sin1_2_scalar 4 [0, 0, 0, 0] (map f32_neg [0, 0x3E800000, 0x3F000000, 0xBF000000]) = Inr st'
             \<and> (\<forall>j < nat 4. \<forall>r. scalar_reduce ([0, 0x3E800000, 0x3F000000, 0xBF000000] ! j) = Inr r
                      \<and> \<bar>val r\<bar> = 1 / 2 \<longrightarrow>
                    finite32 (outs st ! j) \<and> val (outs st ! j) = 0
                    \<and> finite32 (outs st' ! j) \<and> val (outs st' ! j) = 0
                    \<and> f32_eq (outs st' ! j) (f32_neg (outs st ! j)))"
    by blast
  then have "\<exists>st st'. ufxr_sin1_2_scalar 4 [0, 0, 0, 0] [0, 0x3E800000, 0x3F000000, 0xBF000000] = Inr st
        \<and> ufxr_sin1_2_scalar 4 [0, 0, 0, 0] (map f32_neg [0, 0x3E800000, 0x3F000000, 0xBF000000]) = Inr st'
        \<and> (\<forall>r. scalar_reduce 0x3F000000 = Inr r \<and> \<bar>val r\<bar> = 1 / 2 \<longrightarrow>
            val (outs st ! 2) = 0 \<and> val (outs st' ! 2) = 0
            \<and> f32_eq (outs st' ! 2) (f32_neg (outs st ! 2)))
        \<and> (\<forall>r. scalar_reduce 0xBF000000 = Inr r \<and> \<bar>val r\<bar> = 1 / 2 \<longrightarrow>
            val (outs st ! 3) = 0 \<and> val (outs st' ! 3) = 0
            \<and> f32_eq (outs st' ! 3) (f32_neg (outs st ! 3)))"
    unfolding all_lt4 by (simp del: list.map) blast
  then have b: "\<exists>st st'. ufxr_sin1_2_scalar 4 [0, 0, 0, 0] [0, 0x3E800000, 0x3F000000, 0xBF000000] = Inr st
        \<and> ufxr_sin1_2_scalar 4 [0, 0, 0, 0] (map f32_neg [0, 0x3E800000, 0x3F000000, 0xBF000000]) = Inr st'
        \<and> val (outs st ! 2) = 0 \<and> val (outs st' ! 2) = 0
        \<and> f32_eq (outs st' ! 2) (f32_neg (outs st ! 2))
        \<and> val (outs st ! 3) = 0 \<and> val (outs st' ! 3) = 0
        \<and> f32_eq (outs st' ! 3) (f32_neg (outs st ! 3))"
    using boundary_batch(4,5) n(3,4) by blast
  have m: "sym_range 0 \<and> sym_range 0x3E800000 \<and> sym_range 0x3F000000 \<and> sym_range 0xBF000000"
    using boundary_mixed_sym_range unfolding all_lt4 by simp
  show ?thesis
    using batch4[of 0 0 0 0 0 "0x3E800000" "0x3F000000" "0xBF000000"]
      m val_consts(1,2,3) q n(1,2) boundary_batch(4,5) a b by blast
qed

subsection \<open>Boundedness\<close>

text \<open>C6 (for inputs in the range of \<open>int\<close>): on a batch whose elements are all finite with
  \<open>-2^31 \<le> x < 2^31\<close>, both versions return and every output is finite, of magnitude at
  most \<open>1\<close>.\<close>

theorem output_bounded:
  "batch_ok n os xs \<Longrightarrow> \<forall>j < nat n. in_range (xs ! j) \<Longrightarrow>
     (\<exists>st. ufxr_sin1_2_sse n os xs = Inr st
        \<and> (\<forall>j < nat n. finite32 (outs st ! j) \<and> \<bar>val (outs st ! j)\<bar> \<le> 1))
     \<and> (\<exists>st. ufxr_sin1_2_scalar n os xs = Inr st
        \<and> (\<forall>j < nat n. finite32 (outs st ! j) \<and> \<bar>val (outs st ! j)\<bar> \<le> 1))"
proof -
  assume b: "batch_ok n os xs" and r: "\<forall>j < nat n. in_range (xs ! j)"
  from b have c: "n mod UFXR_QUANTUM = 0" "nat n \<le> length xs" "nat n \<le> length os"
    by (simp_all add: batch_ok_def)
  from sse_run[OF c] obtain st where st: "ufxr_sin1_2_sse n os xs = Inr st"
    "\<forall>j < nat n. outs st ! j = sse_elem (xs ! j)" by blast
  have a: "\<forall>j < nat n. finite32 (outs st ! j) \<and> \<bar>val (outs st ! j)\<bar> \<le> 1"
    using st(2) r output_bounded_elem by simp
  have "\<forall>j < nat n. \<exists>y. scalar_elem (xs ! j) = Inr y" using r output_bounded_elem by blast
  from scalar_run[OF c this] obtain st' where st': "ufxr_sin1_2_scalar n os xs = Inr st'"
    "\<forall>j < nat n. scalar_elem (xs ! j) = Inr (outs st' ! j)" by blast
  have "\<forall>j < nat n. finite32 (outs st' ! j) \<and> \<bar>val (outs st' ! j)\<bar> \<le> 1"
  proof (intro allI impI)
    fix j assume j: "j < nat n"
    from output_bounded_elem[of "xs ! j"] r j obtain y where "scalar_elem (xs ! j) = Inr y"
      "finite32 y" "\<bar>val y\<bar> \<le> 1" by blast
    then show "finite32 (outs st' ! j) \<and> \<bar>val (outs st' ! j)\<bar> \<le> 1" using st'(2) j by simp
  qed
  then show ?thesis using st(1) a st'(1) by blast
qed

theorem output_bounded_witness:
  "batch_ok 4 [0, 0, 0, 0] [0, 0x3E800000, 0x3F000000, 0xBE800000]
   \<and> in_range 0 \<and> in_range 0x3E800000 \<and> in_range 0x3F000000 \<and> in_range 0xBE800000
   \<and> (\<exists>st. ufxr_sin1_2_sse 4 [0, 0, 0, 0] [0, 0x3E800000, 0x3F000000, 0xBE800000] = Inr st
        \<and> \<bar>val (outs st ! 1)\<bar> \<le> 1)
   \<and> (\<exists>st. ufxr_sin1_2_scalar 4 [0, 0, 0, 0] [0, 0x3E800000, 0x3F000000, 0xBE800000] = Inr st
        \<and> \<bar>val (outs st ! 1)\<bar> \<le> 1)"
  using output_bounded[OF batch4 exemplar_in_range, of 0 0 0 0]
    batch4[of 0 0 0 0 0 "0x3E800000" "0x3F000000" "0xBE800000"]
    in_range_0 in_range_quarter in_range_half in_range_mq
  unfolding all_lt4 by blast

theorem output_bounded_counterexample:
  "batch_ok 4 [0, 0, 0, 0] [0x4F000000, 0, 0, 0]
   \<and> finite32 0x4F000000 \<and> val 0x4F000000 = 2 ^ 31
   \<and> ufxr_sin1_2_sse 4 [0, 0, 0, 0] [0x4F000000, 0, 0, 0]
       = Inr \<lparr>outs = [0xE1800000, 0, 0, 0],
              trace = [Load 0, Load 1, Load 2, Load 3, Store 0, Store 1, Store 2, Store 3]\<rparr>
   \<and> val 0xE1800000 = - (2 ^ 68) \<and> \<not> \<bar>val 0xE1800000\<bar> \<le> 1"
proof -
  have "ufxr_sin1_2_sse 4 [0, 0, 0, 0] [0x4F000000, 0, 0, 0]
       = Inr \<lparr>outs = [0xE1800000, 0, 0, 0],
              trace = [Load 0, Load 1, Load 2, Load 3, Store 0, Store 1, Store 2, Store 3]\<rparr>"
    by code_simp
  then show ?thesis using batch4 by (simp add: fin_consts val_consts)
qed

subsection \<open>Definedness\<close>

text \<open>C7 (as the code has it): on a batch of \<open>n\<close> elements, \<open>n\<close> a multiple of the quantum, the
  SSE2 version always returns a result. The scalar version returns a result exactly when every
  element is finite with \<open>-2^31 - 1 < x < 2^31\<close>; for any other batch its conversion \<open>(int)x\<close>
  is undefined.\<close>

theorem definedness:
  "batch_ok n os xs \<Longrightarrow>
     (\<exists>st. ufxr_sin1_2_sse n os xs = Inr st)
     \<and> ((\<exists>st. ufxr_sin1_2_scalar n os xs = Inr st)
          = (\<forall>j < nat n. finite32 (xs ! j) \<and> - (2 ^ 31) - 1 < val (xs ! j) \<and> val (xs ! j) < 2 ^ 31))
     \<and> ((\<forall>j < nat n. finite32 (xs ! j) \<and> - (2 ^ 31) - 1 < val (xs ! j) \<and> val (xs ! j) < 2 ^ 31)
          \<or> ufxr_sin1_2_scalar n os xs = Inl UndefinedConversion)"
proof -
  assume b: "batch_ok n os xs"
  then have c: "n mod UFXR_QUANTUM = 0" "nat n \<le> length xs" "nat n \<le> length os"
    by (simp_all add: batch_ok_def)
  from sse_run[OF c] have a: "\<exists>st. ufxr_sin1_2_sse n os xs = Inr st" by blast
  show ?thesis
  proof (cases "\<forall>j < nat n. finite32 (xs ! j) \<and> - (2 ^ 31) - 1 < val (xs ! j) \<and> val (xs ! j) < 2 ^ 31")
    case True
    then have "\<forall>j < nat n. \<exists>y. scalar_elem (xs ! j) = Inr y" using scalar_defined_elem by blast
    from scalar_run[OF c this] have "\<exists>st. ufxr_sin1_2_scalar n os xs = Inr st" by blast
    then show ?thesis using a True by blast
  next
    case False
    then obtain j where j: "j < nat n"
      "\<not> (finite32 (xs ! j) \<and> - (2 ^ 31) - 1 < val (xs ! j) \<and> val (xs ! j) < 2 ^ 31)" by blast
    then have "\<not> (\<exists>y. scalar_elem (xs ! j) = Inr y)" using scalar_defined_elem[of "xs ! j"] by blast
    then have "\<exists>e. scalar_elem (xs ! j) = Inl e" by (cases "scalar_elem (xs ! j)") auto
    then have "\<exists>j < nat n. \<exists>e. scalar_elem (xs ! j) = Inl e" using j(1) by blast
    from scalar_run_fail[OF c this] have f: "ufxr_sin1_2_scalar n os xs = Inl UndefinedConversion" .
    then have "\<not> (\<exists>st. ufxr_sin1_2_scalar n os xs = Inr st)" by simp
    then show ?thesis using a False f by blast
  qed
qed

theorem definedness_witness:
  "batch_ok 4 [0, 0, 0, 0] [0, 0x3E800000, 0x3F000000, 0xBE800000]
   \<and> (\<exists>st. ufxr_sin1_2_sse 4 [0, 0, 0, 0] [0, 0x3E800000, 0x3F000000, 0xBE800000] = Inr st)
   \<and> (\<exists>st. ufxr_sin1_2_scalar 4 [0, 0, 0, 0] [0, 0x3E800000, 0x3F000000, 0xBE800000] = Inr st)
   \<and> batch_ok 4 [0, 0, 0, 0] [0x4F000000, 0, 0, 0]
   \<and> (\<exists>st. ufxr_sin1_2_sse 4 [0, 0, 0, 0] [0x4F000000, 0, 0, 0] = Inr st)
   \<and> \<not> val 0x4F000000 < 2 ^ 31
   \<and> ufxr_sin1_2_scalar 4 [0, 0, 0, 0] [0x4F000000, 0, 0, 0] = Inl UndefinedConversion"
proof -
  have r: "\<forall>j < nat 4. finite32 ([0, 0x3E800000, 0x3F000000, 0xBE800000] ! j)
      \<and> - (2 ^ 31) - 1 < val ([0, 0x3E800000, 0x3F000000, 0xBE800000] ! j)
      \<and> val ([0, 0x3E800000, 0x3F000000, 0xBE800000] ! j) < 2 ^ 31"
    unfolding all_lt4 by (simp add: finite32_def val_def dec_consts)
  have q: "\<not> (\<forall>j < nat 4. finite32 ([0x4F000000, 0, 0, 0] ! j)
      \<and> - (2 ^ 31) - 1 < val ([0x4F000000, 0, 0, 0] ! j)
      \<and> val ([0x4F000000, 0, 0, 0] ! j) < 2 ^ 31)"
    unfolding all_lt4 by (simp add: val_consts)
  have v: "\<not> val 0x4F000000 < 2 ^ 31" by (simp add: val_consts)
  show ?thesis
    using definedness[OF batch4, of 0 0 0 0 0 "0x3E800000" "0x3F000000" "0xBE800000"] r
      definedness[OF batch4, of 0 0 0 0 "0x4F000000" 0 0 0] q v
      batch4[of 0 0 0 0 0 "0x3E800000" "0x3F000000" "0xBE800000"]
      batch4[of 0 0 0 0 "0x4F000000" 0 0 0]
    by blast
qed

theorem definedness_counterexample:
  "batch_ok 4 [0, 0, 0, 0] [0x4F000000, 0, 0, 0]
   \<and> finite32 0x4F000000 \<and> val 0x4F000000 = 2 ^ 31
   \<and> ufxr_sin1_2_scalar 4 [0, 0, 0, 0] [0x4F000000, 0, 0, 0] = Inl UndefinedConversion
   \<and> batch_ok 4 [0, 0, 0, 0] [0x7F800000, 0, 0, 0] \<and> decode 0x7F800000 = Inf False
   \<and> ufxr_sin1_2_scalar 4 [0, 0, 0, 0] [0x7F800000, 0, 0, 0] = Inl UndefinedConversion
   \<and> batch_ok 4 [0, 0, 0, 0] [0x7FC00000, 0, 0, 0] \<and> decode 0x7FC00000 = NaN
   \<and> ufxr_sin1_2_scalar 4 [0, 0, 0, 0] [0x7FC00000, 0, 0, 0] = Inl UndefinedConversion"
proof -
  have "ufxr_sin1_2_scalar 4 [0, 0, 0, 0] [0x4F000000, 0, 0, 0] = Inl UndefinedConversion"
    "ufxr_sin1_2_scalar 4 [0, 0, 0, 0] [0x7F800000, 0, 0, 0] = Inl UndefinedConversion"
    "ufxr_sin1_2_scalar 4 [0, 0, 0, 0] [0x7FC00000, 0, 0, 0] = Inl UndefinedConversion"
    "decode 0x7F800000 = Inf False" "decode 0x7FC00000 = NaN"
    by code_simp+
  then show ?thesis using batch4 by (simp add: fin_consts val_consts)
qed

end
